theory Spec2Isabelle
  imports Complex_Main "HOL-Library.AList"
begin

section \<open>Call records, errors and dates\<close>

text \<open>
  \<^verbatim>\<open>mbd/model/record.py\<close>: a \<^verbatim>\<open>LogRecord\<close> keeps the timestamp as the string read from
  the log. A Python float is a real number in the model; the second pass of the builder
  (the average latency, the throughput and the capacities of an edge) computes over the
  reals, and the additions of its third pass are additions of floats, \<open>float_add\<close> below.
\<close>

record LogRecord =
  timestamp :: string
  src_service :: string
  src_endpoint :: string
  dst_service :: string
  dst_endpoint :: string
  latency :: real

text \<open>The exceptions that the modelled code can meet.\<close>

datatype error = ValueError | TypeError | OverflowError | NetworkXError | NetworkXUnbounded

text \<open>
  A Python \<^verbatim>\<open>datetime\<close> is either naive or carries a UTC offset. Its first integer is
  the wall-clock time in microseconds since 1970-01-01T00:00:00, and an aware value has its
  UTC offset in microseconds as well; \<open>usec\<close> is the instant that ordering and subtraction
  work on. Ordering and subtraction of a naive and an aware value raise \<^verbatim>\<open>TypeError\<close>.
  A \<^verbatim>\<open>timedelta\<close> is its number of microseconds.
\<close>

datatype datetime = Naive int | Aware int int

fun wall :: "datetime \<Rightarrow> int" where
  "wall (Naive n) = n"
| "wall (Aware n off) = n"

fun usec :: "datetime \<Rightarrow> int" where
  "usec (Naive n) = n"
| "usec (Aware n off) = n - off"

fun aware :: "datetime \<Rightarrow> bool" where
  "aware (Naive n) = False"
| "aware (Aware n off) = True"

definition dt_lt :: "datetime \<Rightarrow> datetime \<Rightarrow> error + bool" where
  "dt_lt a b = (if aware a = aware b then Inr (usec a < usec b) else Inl TypeError)"

definition dt_le :: "datetime \<Rightarrow> datetime \<Rightarrow> error + bool" where
  "dt_le a b = (if aware a = aware b then Inr (usec a \<le> usec b) else Inl TypeError)"

definition dt_sub :: "datetime \<Rightarrow> datetime \<Rightarrow> error + int" where
  "dt_sub a b = (if aware a = aware b then Inr (usec a - usec b) else Inl TypeError)"

text \<open>
  The wall clock of a date lies between 0001-01-01T00:00:00 and 9999-12-31T23:59:59.999999,
  and a \<^verbatim>\<open>timedelta\<close> has at most 999999999 days; \<^verbatim>\<open>timedelta(seconds=s)\<close> and the
  addition of a \<^verbatim>\<open>timedelta\<close> to a date raise \<^verbatim>\<open>OverflowError\<close> beyond that.
  \<open>shift\<close> and \<open>usecs\<close> are the results when nothing is raised.
\<close>

definition datetime_min :: int where
  "datetime_min = - 62135596800000000"

definition datetime_max :: int where
  "datetime_max = 253402300799999999"

fun shift :: "datetime \<Rightarrow> int \<Rightarrow> datetime" where
  "shift (Naive n) d = Naive (n + d)"
| "shift (Aware n off) d = Aware (n + d) off"

definition dt_add :: "datetime \<Rightarrow> int \<Rightarrow> error + datetime" where
  "dt_add a d =
     (if datetime_min \<le> wall a + d \<and> wall a + d \<le> datetime_max then Inr (shift a d)
      else Inl OverflowError)"

definition usecs :: "int \<Rightarrow> int" where
  "usecs s = s * 1000000"

definition timedelta :: "int \<Rightarrow> error + int" where
  \<comment> \<open>\<^verbatim>\<open>timedelta(seconds=s)\<close> for an integer number of seconds\<close>
  "timedelta s =
     (if - 999999999 \<le> s div 86400 \<and> s div 86400 \<le> 999999999 then Inr (usecs s)
      else Inl OverflowError)"

definition total_seconds :: "int \<Rightarrow> real" where
  "total_seconds d = real_of_int d / 1000000"

text \<open>
  \<^verbatim>\<open>max(xs)\<close> keeps the first element and replaces it by each later element that
  compares greater; \<^verbatim>\<open>min(xs)\<close> likewise with less. A comparison that raises ends the scan.
\<close>

fun max_loop :: "datetime \<Rightarrow> datetime list \<Rightarrow> error + datetime" where
  "max_loop m [] = Inr m"
| "max_loop m (x # xs) =
     (case dt_lt m x of Inl e \<Rightarrow> Inl e | Inr b \<Rightarrow> max_loop (if b then x else m) xs)"

fun min_loop :: "datetime \<Rightarrow> datetime list \<Rightarrow> error + datetime" where
  "min_loop m [] = Inr m"
| "min_loop m (x # xs) =
     (case dt_lt x m of Inl e \<Rightarrow> Inl e | Inr b \<Rightarrow> min_loop (if b then x else m) xs)"

definition py_max :: "datetime list \<Rightarrow> error + datetime" where
  "py_max ts = (case ts of [] \<Rightarrow> Inl ValueError | x # xs \<Rightarrow> max_loop x xs)"

definition py_min :: "datetime list \<Rightarrow> error + datetime" where
  "py_min ts = (case ts of [] \<Rightarrow> Inl ValueError | x # xs \<Rightarrow> min_loop x xs)"

definition replace_Z :: "string \<Rightarrow> string" where
  \<comment> \<open>\<^verbatim>\<open>s.replace("Z", "+00:00")\<close>\<close>
  "replace_Z s = concat (map (\<lambda>c. if c = CHR ''Z'' then ''+00:00'' else [c]) s)"

section \<open>The directed graph\<close>

text \<open>
  A \<^verbatim>\<open>networkx.DiGraph\<close> as the builder uses it: the nodes in insertion order with their
  attributes, and the edges, keyed by (source, destination), in insertion order with theirs.
  The attribute dictionaries are records; an edge first carries \<^verbatim>\<open>times\<close> and
  \<^verbatim>\<open>count\<close> only and gets the derived fields in the second pass, a node gets its
  fields in the third pass.
\<close>

record raw_edge =
  times_list :: "real list"
  count :: nat

record edge_attrs = raw_edge +
  avg_latency :: real
  throughput :: real
  capacity_latency :: real
  capacity_throughput :: real
  capacity :: real

record node_attrs =
  load :: real
  in_throughput :: real
  out_throughput :: real

record ('n, 'e) DiGraph =
  nodes :: "(string \<times> 'n) list"
  edges :: "((string \<times> string) \<times> 'e) list"

type_synonym graph = "(node_attrs, edge_attrs) DiGraph"

definition empty_graph :: "('n, 'e) DiGraph" where
  "empty_graph = \<lparr>nodes = [], edges = []\<rparr>"

definition has_node :: "('n, 'e) DiGraph \<Rightarrow> string \<Rightarrow> bool" where
  "has_node G n = (n \<in> set (map fst (nodes G)))"

definition has_edge :: "('n, 'e) DiGraph \<Rightarrow> string \<Rightarrow> string \<Rightarrow> bool" where
  "has_edge G u v = ((u, v) \<in> set (map fst (edges G)))"

definition add_node :: "('n, 'e) DiGraph \<Rightarrow> string \<Rightarrow> 'n \<Rightarrow> ('n, 'e) DiGraph" where
  "add_node G n a = (if has_node G n then G else G\<lparr>nodes := nodes G @ [(n, a)]\<rparr>)"

definition add_edge :: "(unit, 'e) DiGraph \<Rightarrow> string \<Rightarrow> string \<Rightarrow> 'e \<Rightarrow> (unit, 'e) DiGraph" where
  \<comment> \<open>both end points become nodes, the source first; an existing edge gets the new attributes\<close>
  "add_edge G u v d =
     (let G1 = add_node G u (); G2 = add_node G1 v ()
      in G2\<lparr>edges := AList.update (u, v) d (edges G2)\<rparr>)"

definition in_edges :: "('n, 'e) DiGraph \<Rightarrow> string \<Rightarrow> ((string \<times> string) \<times> 'e) list" where
  "in_edges G n = filter (\<lambda>kv. snd (fst kv) = n) (edges G)"

definition out_edges :: "('n, 'e) DiGraph \<Rightarrow> string \<Rightarrow> ((string \<times> string) \<times> 'e) list" where
  "out_edges G n = filter (\<lambda>kv. fst (fst kv) = n) (edges G)"

definition successors :: "('n, 'e) DiGraph \<Rightarrow> string \<Rightarrow> error + string list" where
  \<comment> \<open>\<^verbatim>\<open>G.successors(u)\<close> raises when \<^verbatim>\<open>u\<close> is not a node\<close>
  "successors G u =
     (if has_node G u then Inr (map (\<lambda>kv. snd (fst kv)) (out_edges G u)) else Inl NetworkXError)"

section \<open>The library functions the code calls\<close>

text \<open>
  \<^verbatim>\<open>datetime.fromisoformat\<close> (\<open>None\<close> when it raises \<^verbatim>\<open>ValueError\<close>),
  \<^verbatim>\<open>networkx.maximum_flow\<close> and \<^verbatim>\<open>networkx.minimum_cut\<close> are not part of the
  repository; they are parameters of the model. The two sets of a cut are given as the lists
  in which Python iterates over them. The addition of two floats is a parameter as well:
  \<open>float_add\<close> gives the float that \<^verbatim>\<open>a + b\<close> evaluates to, as a real number.
\<close>

type_synonym flow_dict = "((string \<times> string) \<times> real) list"

record externals =
  fromisoformat :: "string \<Rightarrow> datetime option"
  maximum_flow :: "graph \<Rightarrow> string \<Rightarrow> string \<Rightarrow> string \<Rightarrow> error + (real \<times> flow_dict)"
  minimum_cut :: "graph \<Rightarrow> string \<Rightarrow> string \<Rightarrow> string \<Rightarrow> error + (real \<times> (string list \<times> string list))"
  float_add :: "real \<Rightarrow> real \<Rightarrow> real"

definition parse_iso_z :: "externals \<Rightarrow> string \<Rightarrow> error + datetime" where
  "parse_iso_z ext s =
     (case fromisoformat ext (replace_Z s) of None \<Rightarrow> Inl ValueError | Some ts \<Rightarrow> Inr ts)"

section \<open>GraphBuilder.build_graph\<close>

text \<open>
  First pass (\<^verbatim>\<open>for r in records\<close>): a timestamp that parses is appended to
  \<^verbatim>\<open>timestamps\<close>, one that does not is skipped; the record's latency is appended to its
  edge in either case.
\<close>

fun record_loop ::
  "externals \<Rightarrow> LogRecord list \<Rightarrow> (unit, raw_edge) DiGraph \<times> datetime list
     \<Rightarrow> (unit, raw_edge) DiGraph \<times> datetime list" where
  "record_loop ext [] st = st"
| "record_loop ext (r # rs) (G, timestamps) =
     (let src = src_service r; dst = dst_service r; lat = latency r;
          timestamps' = (case parse_iso_z ext (timestamp r) of
                           Inr ts \<Rightarrow> timestamps @ [ts]
                         | Inl e \<Rightarrow> timestamps);
          G' = (if has_edge G src dst
                then G\<lparr>edges := AList.map_entry (src, dst)
                        (\<lambda>e. e\<lparr>times_list := times_list e @ [lat], count := count e + 1\<rparr>) (edges G)\<rparr>
                else add_edge G src dst \<lparr>times_list = [lat], count = 1\<rparr>)
      in record_loop ext rs (G', timestamps'))"

text \<open>The time window: \<^verbatim>\<open>duration\<close> of lines 46 to 52.\<close>

definition time_window :: "datetime list \<Rightarrow> error + real" where
  "time_window timestamps =
     (if timestamps \<noteq> [] then
        (case py_max timestamps of Inl e \<Rightarrow> Inl e | Inr mx \<Rightarrow>
          (case py_min timestamps of Inl e \<Rightarrow> Inl e | Inr mn \<Rightarrow>
            (case dt_sub mx mn of Inl e \<Rightarrow> Inl e | Inr d \<Rightarrow>
              (let duration = total_seconds d
               in Inr (if duration \<le> 0 then 1 else duration)))))
      else Inr 1)"

text \<open>Second pass: the derived fields of one edge.\<close>

definition derive_edge :: "real \<Rightarrow> raw_edge \<Rightarrow> edge_attrs" where
  "derive_edge duration e =
     (let avg = sum_list (times_list e) / real (length (times_list e));
          thr = real (count e) / duration;
          cap_lat = (if avg > 0 then 1 / avg else 0)
      in \<lparr>times_list = times_list e, count = count e, avg_latency = avg, throughput = thr,
          capacity_latency = cap_lat, capacity_throughput = thr,
          capacity = (if thr > 0 then thr else cap_lat)\<rparr>)"

definition edge_pass :: "real \<Rightarrow> (unit, raw_edge) DiGraph \<Rightarrow> (unit, edge_attrs) DiGraph" where
  "edge_pass duration G =
     \<lparr>nodes = nodes G, edges = map (\<lambda>kv. (fst kv, derive_edge duration (snd kv))) (edges G)\<rparr>"

text \<open>
  Third pass: the load of each node. \<open>float_sum\<close> is the loop that starts from \<^verbatim>\<open>0.0\<close> and
  adds the throughputs with \<^verbatim>\<open>+=\<close>, in the order of \<^verbatim>\<open>G.in_edges(n)\<close> and
  \<^verbatim>\<open>G.out_edges(n)\<close>.
\<close>

definition float_sum :: "externals \<Rightarrow> real list \<Rightarrow> real" where
  "float_sum ext xs = foldl (float_add ext) 0 xs"

definition node_load :: "externals \<Rightarrow> (unit, edge_attrs) DiGraph \<Rightarrow> string \<Rightarrow> node_attrs" where
  "node_load ext G n =
     (let in_thr = float_sum ext (map (\<lambda>kv. throughput (snd kv)) (in_edges G n));
          out_thr = float_sum ext (map (\<lambda>kv. throughput (snd kv)) (out_edges G n))
      in \<lparr>load = float_add ext in_thr out_thr, in_throughput = in_thr,
          out_throughput = out_thr\<rparr>)"

definition node_pass :: "externals \<Rightarrow> (unit, edge_attrs) DiGraph \<Rightarrow> graph" where
  "node_pass ext G =
     \<lparr>nodes = map (\<lambda>na. (fst na, node_load ext G (fst na))) (nodes G), edges = edges G\<rparr>"

definition observation_span :: "externals \<Rightarrow> LogRecord list \<Rightarrow> error + real" where
  "observation_span ext records = time_window (snd (record_loop ext records (empty_graph, [])))"

definition build_graph :: "externals \<Rightarrow> LogRecord list \<Rightarrow> error + graph" where
  "build_graph ext records =
     (let G = fst (record_loop ext records (empty_graph, []))
      in case observation_span ext records of
           Inl e \<Rightarrow> Inl e
         | Inr duration \<Rightarrow> Inr (node_pass ext (edge_pass duration G)))"

section \<open>Notions used to state the properties\<close>

text \<open>
  The timestamps of a record list that parse, in record order; the (source, destination)
  pair of a record; a list of dates that are all naive or all aware; the distance in
  microseconds between the latest and the earliest date of a list.
\<close>

definition parsed :: "externals \<Rightarrow> LogRecord list \<Rightarrow> datetime list" where
  "parsed ext records = List.map_filter (\<lambda>r. fromisoformat ext (replace_Z (timestamp r))) records"


definition uniform :: "datetime list \<Rightarrow> bool" where
  "uniform ts \<longleftrightarrow> (\<forall>t \<in> set ts. aware t = aware (hd ts))"

definition span_usec :: "datetime list \<Rightarrow> int" where
  "span_usec ts = Max (usec ` set ts) - Min (usec ` set ts)"

text \<open>
  The body of the first pass on the graph alone, the graph after the first pass, and the
  effect of new latencies on one edge's entry.
\<close>

definition edge_step :: "(unit, raw_edge) DiGraph \<Rightarrow> LogRecord \<Rightarrow> (unit, raw_edge) DiGraph" where
  "edge_step G r =
     (if has_edge G (src_service r) (dst_service r)
      then G\<lparr>edges := AList.map_entry (src_service r, dst_service r)
              (\<lambda>e. e\<lparr>times_list := times_list e @ [latency r], count := count e + 1\<rparr>) (edges G)\<rparr>
      else add_edge G (src_service r) (dst_service r) \<lparr>times_list = [latency r], count = 1\<rparr>)"

definition first_pass :: "externals \<Rightarrow> LogRecord list \<Rightarrow> (unit, raw_edge) DiGraph" where
  "first_pass ext records = fst (record_loop ext records (empty_graph, []))"


text \<open>
  The invariant of the builder's graph: node names and edge keys are not repeated, and both
  end points of every edge are nodes.
\<close>

definition wf_graph :: "('n, 'e) DiGraph \<Rightarrow> bool" where
  "wf_graph G \<longleftrightarrow>
     distinct (map fst (nodes G)) \<and> distinct (map fst (edges G)) \<and>
     (\<forall>k \<in> fst ` set (edges G). has_node G (fst k) \<and> has_node G (snd k))"

section \<open>Sample inputs\<close>

text \<open>
  The values of the library functions on the inputs of the examples below.
  \<open>sample_iso\<close> lists what \<^verbatim>\<open>datetime.fromisoformat\<close> returns on the timestamps used
  (2024-01-01T00:00:00+00:00 is 1704067200 seconds after the epoch); every other string of
  the examples is not a date. \<open>sample_maximum_flow\<close> and \<open>sample_minimum_cut\<close> give the
  maximum flow and the minimum cut from A to C of the chain A to B to C with capacities 1 and
  2, the only graph the examples solve.
\<close>

definition sample_iso :: "string \<Rightarrow> datetime option" where
  "sample_iso = map_of
     [(''2024-01-01T00:00:00+00:00'', Aware 1704067200000000 0),
      (''2024-01-01T00:00:00.500000+00:00'', Aware 1704067200500000 0),
      (''2024-01-01T00:00:01+00:00'', Aware 1704067201000000 0),
      (''2024-01-01T00:02:00+00:00'', Aware 1704067320000000 0),
      (''2024-01-01T00:00:00'', Naive 1704067200000000)]"

definition sample_maximum_flow :: "graph \<Rightarrow> string \<Rightarrow> string \<Rightarrow> string \<Rightarrow> error + (real \<times> flow_dict)" where
  "sample_maximum_flow G s t attr =
     (if s = ''A'' \<and> t = ''C'' \<and> attr = ''capacity'' \<and> map fst (nodes G) = [''A'', ''B'', ''C''] \<and>
         map (\<lambda>kv. (fst kv, capacity (snd kv))) (edges G) = [((''A'', ''B''), 1), ((''B'', ''C''), 2)]
      then Inr (1, [((''A'', ''B''), 1), ((''B'', ''C''), 1)])
      else Inl NetworkXError)"

definition sample_minimum_cut :: "graph \<Rightarrow> string \<Rightarrow> string \<Rightarrow> string \<Rightarrow> error + (real \<times> (string list \<times> string list))" where
  "sample_minimum_cut G s t attr =
     (if s = ''A'' \<and> t = ''C'' \<and> attr = ''capacity'' \<and> map fst (nodes G) = [''A'', ''B'', ''C''] \<and>
         map (\<lambda>kv. (fst kv, capacity (snd kv))) (edges G) = [((''A'', ''B''), 1), ((''B'', ''C''), 2)]
      then Inr (1, ([''A''], [''B'', ''C'']))
      else Inl NetworkXError)"

definition sample_ext :: externals where
  "sample_ext = \<lparr>fromisoformat = sample_iso, maximum_flow = sample_maximum_flow,
                  minimum_cut = sample_minimum_cut, float_add = (\<lambda>a b. a + b)\<rparr>"

definition call :: "string \<Rightarrow> string \<Rightarrow> string \<Rightarrow> real \<Rightarrow> LogRecord" where
  "call ts s d l = \<lparr>timestamp = ts, src_service = s, src_endpoint = ''/'', dst_service = d,
                    dst_endpoint = ''/'', latency = l\<rparr>"

definition sample_log :: "LogRecord list" where
  "sample_log =
     [call ''2024-01-01T00:00:00Z'' ''A'' ''B'' 10,
      call ''2024-01-01T00:00:01Z'' ''B'' ''C'' 20,
      call ''not a date'' ''B'' ''C'' 40,
      call ''2024-01-01T00:02:00Z'' ''A'' ''B'' 10]"

definition half_log :: "LogRecord list" where
  "half_log =
     [call ''2024-01-01T00:00:00Z'' ''A'' ''B'' 10,
      call ''2024-01-01T00:00:00.500000Z'' ''A'' ''B'' 10]"

definition sample_graph :: graph where
  "sample_graph =
     \<lparr>nodes =
        [(''A'', \<lparr>load = 1 / 60, in_throughput = 0, out_throughput = 1 / 60\<rparr>),
         (''B'', \<lparr>load = 1 / 30, in_throughput = 1 / 60, out_throughput = 1 / 60\<rparr>),
         (''C'', \<lparr>load = 1 / 60, in_throughput = 1 / 60, out_throughput = 0\<rparr>)],
      edges =
        [((''A'', ''B''),
          \<lparr>times_list = [10, 10], count = 2, avg_latency = 10, throughput = 1 / 60,
           capacity_latency = 1 / 10, capacity_throughput = 1 / 60, capacity = 1 / 60\<rparr>),
         ((''B'', ''C''),
          \<lparr>times_list = [20, 40], count = 2, avg_latency = 30, throughput = 1 / 60,
           capacity_latency = 1 / 30, capacity_throughput = 1 / 60, capacity = 1 / 60\<rparr>)]\<rparr>"

definition half_graph :: graph where
  "half_graph =
     \<lparr>nodes = [(''A'', \<lparr>load = 4, in_throughput = 0, out_throughput = 4\<rparr>),
               (''B'', \<lparr>load = 4, in_throughput = 4, out_throughput = 0\<rparr>)],
      edges = [((''A'', ''B''),
                \<lparr>times_list = [10, 10], count = 2, avg_latency = 10, throughput = 4,
                 capacity_latency = 1 / 10, capacity_throughput = 4, capacity = 4\<rparr>)]\<rparr>"

section \<open>The first pass of the builder\<close>

lemma record_loop_fold:
  "record_loop ext rs (G, ts) = (fold (\<lambda>r G. edge_step G r) rs G, ts @ parsed ext rs)"
proof (induction rs arbitrary: G ts)
  case Nil
  show ?case by (simp add: parsed_def List.map_filter_simps)
next
  case (Cons r rs)
  show ?case
    by (simp add: Cons.IH Let_def edge_step_def parsed_def List.map_filter_simps parse_iso_z_def
             split: option.splits)
qed




lemma wf_empty_graph: "wf_graph empty_graph"
  by (simp add: wf_graph_def empty_graph_def)

lemma add_node_props:
  "fst ` set (nodes (add_node G n a)) = insert n (fst ` set (nodes G))"
  "distinct (map fst (nodes G)) \<Longrightarrow> distinct (map fst (nodes (add_node G n a)))"
  "edges (add_node G n a) = edges G"
  by (auto simp: add_node_def has_node_def)

lemma node_set_edge_step:
  "fst ` set (nodes (edge_step G r)) =
     (if has_edge G (src_service r) (dst_service r) then fst ` set (nodes G)
      else insert (src_service r) (insert (dst_service r) (fst ` set (nodes G))))"
  by (auto simp: edge_step_def add_edge_def Let_def add_node_props)

lemma wf_edge_step:
  assumes "wf_graph G"
  shows "wf_graph (edge_step G r)"
proof (cases "has_edge G (src_service r) (dst_service r)")
  case True
  with assms show ?thesis
    by (simp add: wf_graph_def edge_step_def has_node_def distinct_map_entry dom_map_entry)
next
  case False
  with assms show ?thesis
    by (auto simp: wf_graph_def edge_step_def add_edge_def Let_def add_node_props has_node_def
          distinct_update dom_update)
qed

lemma wf_fold_edge_step: "wf_graph G \<Longrightarrow> wf_graph (fold (\<lambda>r G. edge_step G r) rs G)"
  by (induction rs arbitrary: G) (simp_all add: wf_edge_step)

lemma node_set_fold_edge_step:
  "wf_graph G \<Longrightarrow>
   fst ` set (nodes (fold (\<lambda>r G. edge_step G r) rs G)) =
     fst ` set (nodes G) \<union> src_service ` set rs \<union> dst_service ` set rs"
proof (induction rs arbitrary: G)
  case Nil
  show ?case by simp
next
  case (Cons r rs)
  have present: "src_service r \<in> fst ` set (nodes G) \<and> dst_service r \<in> fst ` set (nodes G)"
    if "has_edge G (src_service r) (dst_service r)"
    using that Cons.prems by (force simp: wf_graph_def has_edge_def has_node_def)
  show ?case
    using Cons.IH[OF wf_edge_step[OF Cons.prems, of r]] present
    by (auto simp: node_set_edge_step)
qed

lemma first_pass_fold: "first_pass ext rs = fold (\<lambda>r G. edge_step G r) rs empty_graph"
  by (simp add: first_pass_def record_loop_fold)

lemma wf_first_pass: "wf_graph (first_pass ext rs)"
  by (simp add: first_pass_fold wf_fold_edge_step wf_empty_graph)

lemma node_set_first_pass:
  "fst ` set (nodes (first_pass ext rs)) = src_service ` set rs \<union> dst_service ` set rs"
  by (simp add: first_pass_fold node_set_fold_edge_step wf_empty_graph) (simp add: empty_graph_def)


lemma observation_span_parsed: "observation_span ext rs = time_window (parsed ext rs)"
  by (simp add: observation_span_def record_loop_fold)

lemma build_graph_Inr:
  assumes "build_graph ext rs = Inr G"
  obtains d where "observation_span ext rs = Inr d"
    and "G = node_pass ext (edge_pass d (first_pass ext rs))"
  using assms by (auto simp: build_graph_def first_pass_def Let_def split: sum.splits)

lemma edges_final:
  "edges (node_pass ext (edge_pass d G)) = map (\<lambda>kv. (fst kv, derive_edge d (snd kv))) (edges G)"
  by (simp add: node_pass_def edge_pass_def)

lemma nodes_final:
  "map fst (nodes (node_pass ext (edge_pass d G))) = map fst (nodes G)"
  by (simp add: node_pass_def edge_pass_def comp_def)

lemma wf_edge_pass: "wf_graph F \<Longrightarrow> wf_graph (edge_pass d F)"
  by (simp add: wf_graph_def has_node_def edge_pass_def comp_def image_image)

lemma wf_final: "wf_graph G \<Longrightarrow> wf_graph (node_pass ext (edge_pass d G))"
  by (simp add: wf_graph_def has_node_def node_pass_def edge_pass_def comp_def image_image)


lemma final_node_entries:
  "nodes (node_pass ext E) = map (\<lambda>na. (fst na, node_load ext E (fst na))) (nodes E)"
  by (simp add: node_pass_def)

lemma in_out_node_pass:
  "in_edges (node_pass ext E) n = in_edges E n" "out_edges (node_pass ext E) n = out_edges E n"
  by (simp_all add: in_edges_def out_edges_def node_pass_def)

section \<open>The latest and the earliest date\<close>

lemma max_loop_Inr:
  "max_loop m ts = Inr m' \<Longrightarrow>
     (\<forall>t \<in> set ts. aware t = aware m) \<and> aware m' = aware m \<and>
     usec m' = fold max (map usec ts) (usec m)"
proof (induction ts arbitrary: m)
  case Nil
  then show ?case by simp
next
  case (Cons x xs)
  from Cons.prems have same: "aware m = aware x"
    by (auto simp: dt_lt_def split: if_splits)
  with Cons.prems have rec: "max_loop (if usec m < usec x then x else m) xs = Inr m'"
    by (simp add: dt_lt_def)
  let ?n = "if usec m < usec x then x else m"
  have key: "usec ?n = max (usec x) (usec m)"
    by (simp add: max_def)
  have n: "aware ?n = aware m"
    using same by simp
  from Cons.IH[OF rec] have
    a: "\<forall>t \<in> set xs. aware t = aware ?n" and b: "aware m' = aware ?n"
    and c: "usec m' = fold max (map usec xs) (usec ?n)" by blast+
  from a n same have "\<forall>t \<in> set (x # xs). aware t = aware m" by simp
  moreover from b n have "aware m' = aware m" by simp
  moreover from c key have "usec m' = fold max (map usec (x # xs)) (usec m)" by simp
  ultimately show ?case by blast
qed

lemma min_loop_Inr:
  "min_loop m ts = Inr m' \<Longrightarrow>
     (\<forall>t \<in> set ts. aware t = aware m) \<and> aware m' = aware m \<and>
     usec m' = fold min (map usec ts) (usec m)"
proof (induction ts arbitrary: m)
  case Nil
  then show ?case by simp
next
  case (Cons x xs)
  from Cons.prems have same: "aware m = aware x"
    by (auto simp: dt_lt_def split: if_splits)
  with Cons.prems have rec: "min_loop (if usec x < usec m then x else m) xs = Inr m'"
    by (simp add: dt_lt_def)
  let ?n = "if usec x < usec m then x else m"
  have key: "usec ?n = min (usec x) (usec m)"
    by (simp add: min_def)
  have n: "aware ?n = aware m"
    using same by simp
  from Cons.IH[OF rec] have
    a: "\<forall>t \<in> set xs. aware t = aware ?n" and b: "aware m' = aware ?n"
    and c: "usec m' = fold min (map usec xs) (usec ?n)" by blast+
  from a n same have "\<forall>t \<in> set (x # xs). aware t = aware m" by simp
  moreover from b n have "aware m' = aware m" by simp
  moreover from c key have "usec m' = fold min (map usec (x # xs)) (usec m)" by simp
  ultimately show ?case by blast
qed

lemma max_loop_uniform:
  "\<forall>t \<in> set ts. aware t = aware m \<Longrightarrow> \<exists>m'. max_loop m ts = Inr m'"
proof (induction ts arbitrary: m)
  case Nil
  show ?case by simp
next
  case (Cons x xs)
  let ?n = "if usec m < usec x then x else m"
  from Cons.prems have "\<forall>t \<in> set xs. aware t = aware ?n" by simp
  from Cons.IH[OF this] Cons.prems show ?case by (simp add: dt_lt_def)
qed

lemma min_loop_uniform:
  "\<forall>t \<in> set ts. aware t = aware m \<Longrightarrow> \<exists>m'. min_loop m ts = Inr m'"
proof (induction ts arbitrary: m)
  case Nil
  show ?case by simp
next
  case (Cons x xs)
  let ?n = "if usec x < usec m then x else m"
  from Cons.prems have "\<forall>t \<in> set xs. aware t = aware ?n" by simp
  from Cons.IH[OF this] Cons.prems show ?case by (simp add: dt_lt_def)
qed

lemma py_max_Inr:
  assumes "py_max ts = Inr m"
  shows "ts \<noteq> [] \<and> uniform ts \<and> usec m = Max (usec ` set ts) \<and> (\<forall>t \<in> set ts. aware t = aware m)"
proof (cases ts)
  case Nil
  with assms show ?thesis by (simp add: py_max_def)
next
  case (Cons x xs)
  with assms have "max_loop x xs = Inr m" by (simp add: py_max_def)
  from max_loop_Inr[OF this] have
    "\<forall>t \<in> set xs. aware t = aware x" "aware m = aware x"
    "usec m = fold max (map usec xs) (usec x)" by simp_all
  moreover have "Max (usec ` set ts) = fold max (map usec xs) (usec x)"
    using Max.set_eq_fold[of "usec x" "map usec xs"] Cons by simp
  ultimately show ?thesis using Cons
    by (simp add: uniform_def)
qed

lemma py_min_Inr:
  assumes "py_min ts = Inr m"
  shows "ts \<noteq> [] \<and> uniform ts \<and> usec m = Min (usec ` set ts) \<and> (\<forall>t \<in> set ts. aware t = aware m)"
proof (cases ts)
  case Nil
  with assms show ?thesis by (simp add: py_min_def)
next
  case (Cons x xs)
  with assms have "min_loop x xs = Inr m" by (simp add: py_min_def)
  from min_loop_Inr[OF this] have
    "\<forall>t \<in> set xs. aware t = aware x" "aware m = aware x"
    "usec m = fold min (map usec xs) (usec x)" by simp_all
  moreover have "Min (usec ` set ts) = fold min (map usec xs) (usec x)"
    using Min.set_eq_fold[of "usec x" "map usec xs"] Cons by simp
  ultimately show ?thesis using Cons
    by (simp add: uniform_def)
qed

lemma py_max_uniform:
  assumes "ts \<noteq> []" and "uniform ts"
  shows "\<exists>m. py_max ts = Inr m"
proof -
  from assms(1) obtain x xs where ts: "ts = x # xs" by (cases ts) auto
  with assms(2) have "\<forall>t \<in> set xs. aware t = aware x" by (simp add: uniform_def)
  from max_loop_uniform[OF this] ts show ?thesis by (simp add: py_max_def)
qed

lemma py_min_uniform:
  assumes "ts \<noteq> []" and "uniform ts"
  shows "\<exists>m. py_min ts = Inr m"
proof -
  from assms(1) obtain x xs where ts: "ts = x # xs" by (cases ts) auto
  with assms(2) have "\<forall>t \<in> set xs. aware t = aware x" by (simp add: uniform_def)
  from min_loop_uniform[OF this] ts show ?thesis by (simp add: py_min_def)
qed

lemma span_usec_nonneg: "ts \<noteq> [] \<Longrightarrow> 0 \<le> span_usec ts"
  by (simp add: span_usec_def)

lemma time_window_Inr:
  assumes "time_window ts = Inr d"
  shows "uniform ts \<and>
         d = (if ts = [] then 1
              else if 0 < total_seconds (span_usec ts) then total_seconds (span_usec ts) else 1)"
proof (cases "ts = []")
  case True
  with assms show ?thesis by (simp add: time_window_def uniform_def)
next
  case False
  from assms False obtain mx where mx: "py_max ts = Inr mx"
    by (cases "py_max ts") (simp_all add: time_window_def)
  from assms False mx obtain mn where mn: "py_min ts = Inr mn"
    by (cases "py_min ts") (simp_all add: time_window_def)
  from assms False mx mn obtain dd where dd: "dt_sub mx mn = Inr dd"
    by (cases "dt_sub mx mn") (simp_all add: time_window_def)
  from assms False mx mn dd
  have d: "d = (if total_seconds dd \<le> 0 then 1 else total_seconds dd)"
    by (simp add: time_window_def Let_def)
  from dd have "dd = usec mx - usec mn"
    by (auto simp: dt_sub_def split: if_splits)
  with py_max_Inr[OF mx] py_min_Inr[OF mn] have "dd = span_usec ts"
    by (simp add: span_usec_def)
  with d False py_max_Inr[OF mx] show ?thesis
    by (simp add: not_le)
qed

lemma time_window_uniform: "uniform ts \<Longrightarrow> \<exists>d. time_window ts = Inr d"
proof (cases "ts = []")
  case True
  then show ?thesis by (simp add: time_window_def)
next
  case False
  assume u: "uniform ts"
  from py_max_uniform[OF False u] obtain mx where mx: "py_max ts = Inr mx" ..
  from py_min_uniform[OF False u] obtain mn where mn: "py_min ts = Inr mn" ..
  from False have h: "hd ts \<in> set ts" by simp
  from py_max_Inr[OF mx] h have "aware (hd ts) = aware mx" by blast
  moreover from py_min_Inr[OF mn] h have "aware (hd ts) = aware mn" by blast
  ultimately have "aware mx = aware mn" by simp
  with mx mn False show ?thesis
    by (simp add: time_window_def dt_sub_def Let_def)
qed

lemma time_window_pos: "time_window ts = Inr d \<Longrightarrow> 0 < d"
  by (drule time_window_Inr) (auto split: if_splits)

section \<open>The sample graphs\<close>

lemma float_add_sample: "float_add sample_ext a b = a + b"
  by (simp add: sample_ext_def)

lemma parsed_sample:
  "parsed sample_ext sample_log =
     [Aware 1704067200000000 0, Aware 1704067201000000 0, Aware 1704067320000000 0]"
  by (simp add: parsed_def sample_log_def call_def sample_ext_def sample_iso_def replace_Z_def
        List.map_filter_simps)

lemma first_pass_sample:
  "first_pass sample_ext sample_log =
     \<lparr>nodes = [(''A'', ()), (''B'', ()), (''C'', ())],
      edges = [((''A'', ''B''), \<lparr>times_list = [10, 10], count = 2\<rparr>),
               ((''B'', ''C''), \<lparr>times_list = [20, 40], count = 2\<rparr>)]\<rparr>"
  by (simp add: first_pass_fold sample_log_def call_def edge_step_def has_edge_def add_edge_def
        add_node_def has_node_def empty_graph_def Let_def)

lemma span_sample: "observation_span sample_ext sample_log = Inr 120"
  by (simp add: observation_span_parsed parsed_sample time_window_def py_max_def py_min_def
        dt_lt_def dt_sub_def total_seconds_def Let_def)

lemma build_graph_sample: "build_graph sample_ext sample_log = Inr sample_graph"
  by (simp add: build_graph_def first_pass_def[symmetric] first_pass_sample span_sample
        edge_pass_def node_pass_def node_load_def float_sum_def derive_edge_def in_edges_def out_edges_def
        sample_graph_def float_add_sample Let_def)

lemma parsed_half:
  "parsed sample_ext half_log = [Aware 1704067200000000 0, Aware 1704067200500000 0]"
  by (simp add: parsed_def half_log_def call_def sample_ext_def sample_iso_def replace_Z_def
        List.map_filter_simps)

lemma span_half: "observation_span sample_ext half_log = Inr (1 / 2)"
  by (simp add: observation_span_parsed parsed_half time_window_def py_max_def py_min_def
        dt_lt_def dt_sub_def total_seconds_def Let_def)

lemma first_pass_half:
  "first_pass sample_ext half_log =
     \<lparr>nodes = [(''A'', ()), (''B'', ())],
      edges = [((''A'', ''B''), \<lparr>times_list = [10, 10], count = 2\<rparr>)]\<rparr>"
  by (simp add: first_pass_fold half_log_def call_def edge_step_def has_edge_def add_edge_def
        add_node_def has_node_def empty_graph_def Let_def)

lemma build_graph_half: "build_graph sample_ext half_log = Inr half_graph"
  by (simp add: build_graph_def first_pass_def[symmetric] first_pass_half span_half
        edge_pass_def node_pass_def node_load_def float_sum_def derive_edge_def in_edges_def out_edges_def
        half_graph_def float_add_sample Let_def)

section \<open>Edge capacities\<close>

text \<open>
  C6. Every edge of a built graph has \<open>capacity_latency = 1 / avg_latency\<close> when the
  average latency is positive and \<open>0\<close> otherwise, \<open>capacity_throughput = throughput\<close>,
  and its default capacity is the throughput when that is positive and the latency-derived
  capacity otherwise.
\<close>

theorem build_graph_capacities:
  assumes "build_graph ext records = Inr G" and "(k, e) \<in> set (edges G)"
  shows "capacity_latency e = (if avg_latency e > 0 then 1 / avg_latency e else 0)
       \<and> capacity_throughput e = throughput e
       \<and> capacity e = (if throughput e > 0 then throughput e else capacity_latency e)"
proof -
  from assms(1) obtain d where G: "G = node_pass ext (edge_pass d (first_pass ext records))"
    by (rule build_graph_Inr)
  from assms(2) obtain r where "e = derive_edge d r"
    unfolding G edges_final by auto
  then show ?thesis by (simp add: derive_edge_def Let_def)
qed

text \<open>
  The sample log: the edge from A to B of its graph.
\<close>

theorem build_graph_capacities_witness:
  "build_graph sample_ext sample_log = Inr sample_graph
   \<and> ((''A'', ''B''),
       \<lparr>times_list = [10, 10], count = 2, avg_latency = 10, throughput = 1 / 60,
        capacity_latency = 1 / 10, capacity_throughput = 1 / 60, capacity = 1 / 60\<rparr>)
      \<in> set (edges sample_graph)
   \<and> (1 / 10 :: real) = (if (10::real) > 0 then 1 / 10 else 0)
   \<and> (1 / 60 :: real) = (if (1 / 60 :: real) > 0 then 1 / 60 else 1 / 10)"
proof -
  let ?e = "\<lparr>times_list = [10, 10], count = 2, avg_latency = 10, throughput = 1 / 60,
        capacity_latency = 1 / 10, capacity_throughput = 1 / 60, capacity = 1 / 60 :: real\<rparr>"
  have m: "((''A'', ''B''), ?e) \<in> set (edges sample_graph)"
    by (simp add: sample_graph_def)
  from build_graph_capacities[OF build_graph_sample m] m build_graph_sample
  show ?thesis by simp
qed

section \<open>Node load\<close>

lemma sum_list_by_key:
  fixes g :: "'a \<Rightarrow> real"
  assumes "distinct ns" and "\<forall>x \<in> set xs. f x \<in> set ns"
  shows "sum_list (map (\<lambda>n. sum_list (map g (filter (\<lambda>x. f x = n) xs))) ns) = sum_list (map g xs)"
  using assms(2)
proof (induction xs)
  case Nil
  show ?case by simp
next
  case (Cons x xs)
  have one: "sum_list (map (\<lambda>n. if f x = n then g x else 0) ns) = g x"
    using assms(1) Cons.prems
    by (simp add: sum_list_distinct_conv_sum_set sum.delta')
  have "sum_list (map (\<lambda>n. sum_list (map g (filter (\<lambda>x. f x = n) (x # xs)))) ns)
      = sum_list (map (\<lambda>n. (if f x = n then g x else 0)
                           + sum_list (map g (filter (\<lambda>x. f x = n) xs))) ns)"
    by (rule arg_cong[where f = sum_list]) auto
  also have "\<dots> = g x + sum_list (map g xs)"
    using Cons by (simp add: sum_list_addf one)
  finally show ?case by simp
qed

lemma total_in_throughput:
  assumes "wf_graph E"
  shows "sum_list (map (\<lambda>n. sum_list (map (\<lambda>kv. throughput (snd kv)) (in_edges E n)))
           (map fst (nodes E)))
       = sum_list (map (\<lambda>kv. throughput (snd kv)) (edges E))"
  unfolding in_edges_def
  by (rule sum_list_by_key) (use assms in \<open>auto simp: wf_graph_def has_node_def\<close>)

lemma total_out_throughput:
  assumes "wf_graph E"
  shows "sum_list (map (\<lambda>n. sum_list (map (\<lambda>kv. throughput (snd kv)) (out_edges E n)))
           (map fst (nodes E)))
       = sum_list (map (\<lambda>kv. throughput (snd kv)) (edges E))"
  unfolding out_edges_def
  by (rule sum_list_by_key) (use assms in \<open>auto simp: wf_graph_def has_node_def\<close>)

text \<open>
  Floats: an addition is within the relative error \<open>u\<close> of the sum (for IEEE doubles without
  overflow, \<open>u\<close> is 2 to the power -53). A sum of \<open>k\<close> non-negative numbers accumulated by
  such an addition lies between the exact sum times \<open>(1 - u) ^ k\<close> and the exact sum times
  \<open>(1 + u) ^ k\<close>.
\<close>

definition rounds_within :: "real \<Rightarrow> (real \<Rightarrow> real \<Rightarrow> real) \<Rightarrow> bool" where
  "rounds_within u add \<longleftrightarrow> (\<forall>a b. \<bar>add a b - (a + b)\<bar> \<le> u * \<bar>a + b\<bar>)"

lemma float_sum_snoc: "float_sum ext (xs @ [x]) = float_add ext (float_sum ext xs) x"
  by (simp add: float_sum_def)

lemma float_sum_bounds:
  assumes "rounds_within u (float_add ext)" and "0 \<le> u" and "u \<le> 1"
    and "\<forall>x \<in> set xs. 0 \<le> x"
  shows "(1 - u) ^ length xs * sum_list xs \<le> float_sum ext xs
       \<and> float_sum ext xs \<le> (1 + u) ^ length xs * sum_list xs"
  using assms(4)
proof (induction xs rule: rev_induct)
  case Nil
  show ?case by (simp add: float_sum_def)
next
  case (snoc x xs)
  let ?k = "length xs" and ?S = "sum_list xs" and ?s = "float_sum ext xs"
  from snoc.prems have x: "0 \<le> x" and all: "\<forall>x \<in> set xs. 0 \<le> x" by simp_all
  from snoc.IH[OF all] have lo: "(1 - u) ^ ?k * ?S \<le> ?s" and hi: "?s \<le> (1 + u) ^ ?k * ?S"
    by blast+
  from all have S: "0 \<le> ?S" by (simp add: sum_list_nonneg)
  from assms(2,3) have p: "0 \<le> (1 - u) ^ ?k" "(1 - u) ^ ?k \<le> 1" "1 \<le> (1 + u) ^ ?k"
    by (simp_all add: power_le_one)
  from p(1) S have "0 \<le> (1 - u) ^ ?k * ?S" by simp
  with lo have s0: "0 \<le> ?s" by linarith
  with x have sx: "0 \<le> ?s + x" by simp
  from assms(1) have "\<bar>float_add ext ?s x - (?s + x)\<bar> \<le> u * \<bar>?s + x\<bar>"
    unfolding rounds_within_def by blast
  with sx have "\<bar>float_add ext ?s x - (?s + x)\<bar> \<le> u * (?s + x)" by simp
  then have r: "(1 - u) * (?s + x) \<le> float_add ext ?s x"
    "float_add ext ?s x \<le> (1 + u) * (?s + x)"
    by (simp_all add: abs_le_iff algebra_simps)
  from p(2) x have "(1 - u) ^ ?k * x \<le> 1 * x" by (intro mult_right_mono) simp_all
  with lo have "(1 - u) ^ ?k * (?S + x) \<le> ?s + x" by (simp add: distrib_left)
  then have "(1 - u) * ((1 - u) ^ ?k * (?S + x)) \<le> (1 - u) * (?s + x)"
    using assms(3) by (intro mult_left_mono) simp_all
  with r(1) have L: "(1 - u) ^ Suc ?k * (?S + x) \<le> float_add ext ?s x"
    by (simp add: mult.assoc)
  from p(3) x have "1 * x \<le> (1 + u) ^ ?k * x" by (intro mult_right_mono) simp_all
  with hi have "?s + x \<le> (1 + u) ^ ?k * (?S + x)" by (simp add: distrib_left)
  then have "(1 + u) * (?s + x) \<le> (1 + u) * ((1 + u) ^ ?k * (?S + x))"
    using assms(2) by (intro mult_left_mono) simp_all
  with r(2) have U: "float_add ext ?s x \<le> (1 + u) ^ Suc ?k * (?S + x)"
    by (simp add: mult.assoc)
  from L U show ?case by (simp add: float_sum_snoc)
qed

lemma float_sum_between:
  assumes "rounds_within u (float_add ext)" and "0 \<le> u" and "u \<le> 1"
    and "\<forall>x \<in> set xs. 0 \<le> x" and "length xs \<le> m"
  shows "(1 - u) ^ m * sum_list xs \<le> float_sum ext xs
       \<and> float_sum ext xs \<le> (1 + u) ^ m * sum_list xs"
proof -
  from assms(4) have S: "0 \<le> sum_list xs" by (simp add: sum_list_nonneg)
  from assms(2,3,5) have "(1 - u) ^ m \<le> (1 - u) ^ length xs"
    by (intro power_decreasing) simp_all
  with S have "(1 - u) ^ m * sum_list xs \<le> (1 - u) ^ length xs * sum_list xs"
    by (intro mult_right_mono)
  moreover from assms(2,5) have "(1 + u) ^ length xs \<le> (1 + u) ^ m"
    by (intro power_increasing) simp_all
  with S have "(1 + u) ^ length xs * sum_list xs \<le> (1 + u) ^ m * sum_list xs"
    by (intro mult_right_mono)
  moreover note float_sum_bounds[OF assms(1,2,3,4)]
  ultimately show ?thesis by linarith
qed

lemma sum_list_between:
  fixes f g :: "'a \<Rightarrow> real"
  assumes "\<forall>n \<in> set ns. c * g n \<le> f n \<and> f n \<le> d * g n"
  shows "c * sum_list (map g ns) \<le> sum_list (map f ns)
       \<and> sum_list (map f ns) \<le> d * sum_list (map g ns)"
  using assms
proof (induction ns)
  case Nil
  show ?case by simp
next
  case (Cons n ns)
  then have "c * g n \<le> f n" "f n \<le> d * g n"
    "c * sum_list (map g ns) \<le> sum_list (map f ns)"
    "sum_list (map f ns) \<le> d * sum_list (map g ns)" by simp_all
  then show ?case by (simp add: distrib_left)
qed

lemma throughput_nonneg:
  assumes "0 < d"
  shows "\<forall>x \<in> set (map (\<lambda>kv. throughput (snd kv)) (edges (edge_pass d F))). 0 \<le> x"
  using assms by (auto simp: edge_pass_def derive_edge_def Let_def)

text \<open>
  C7. In a built graph the incoming and the outgoing throughput of every node are the float
  sums of the throughputs of its incoming and of its outgoing edges, and its load is the
  float sum of the two. Summed over all nodes, the outgoing and the incoming throughput
  differ by at most \<open>((1 + u) ^ m - (1 - u) ^ m)\<close> times the total throughput of the \<open>m\<close>
  edges, when each float addition is within the relative error \<open>u\<close> of the sum; with an
  exact addition the two totals are equal.
\<close>

theorem build_graph_node_load:
  assumes "build_graph ext records = Inr G"
    and "rounds_within u (float_add ext)" and "0 \<le> u" and "u \<le> 1"
  shows "(\<forall>na \<in> set (nodes G).
            in_throughput (snd na)
              = float_sum ext (map (\<lambda>kv. throughput (snd kv)) (in_edges G (fst na)))
          \<and> out_throughput (snd na)
              = float_sum ext (map (\<lambda>kv. throughput (snd kv)) (out_edges G (fst na)))
          \<and> load (snd na) = float_add ext (in_throughput (snd na)) (out_throughput (snd na)))
       \<and> \<bar>sum_list (map (\<lambda>na. out_throughput (snd na)) (nodes G))
           - sum_list (map (\<lambda>na. in_throughput (snd na)) (nodes G))\<bar>
         \<le> ((1 + u) ^ length (edges G) - (1 - u) ^ length (edges G))
             * sum_list (map (\<lambda>kv. throughput (snd kv)) (edges G))"
proof -
  from assms(1) obtain d where d: "observation_span ext records = Inr d"
    and G: "G = node_pass ext (edge_pass d (first_pass ext records))"
    by (rule build_graph_Inr)
  define E where "E = edge_pass d (first_pass ext records)"
  define thr :: "(string \<times> string) \<times> edge_attrs \<Rightarrow> real" where "thr = (\<lambda>kv. throughput (snd kv))"
  define m where "m = length (edges E)"
  define T where "T = sum_list (map thr (edges E))"
  have wf: "wf_graph E"
    unfolding E_def by (rule wf_edge_pass) (rule wf_first_pass)
  have G': "G = node_pass ext E" by (simp add: G E_def)
  have edges: "edges G = edges E" by (simp add: G' node_pass_def)
  from d have pos: "0 < d" by (simp add: observation_span_parsed time_window_pos)
  have nonneg: "\<forall>x \<in> set (map thr (edges E)). 0 \<le> x"
    unfolding E_def thr_def by (rule throughput_nonneg[OF pos])
  have per_node: "\<forall>na \<in> set (nodes G).
            in_throughput (snd na)
              = float_sum ext (map (\<lambda>kv. throughput (snd kv)) (in_edges G (fst na)))
          \<and> out_throughput (snd na)
              = float_sum ext (map (\<lambda>kv. throughput (snd kv)) (out_edges G (fst na)))
          \<and> load (snd na) = float_add ext (in_throughput (snd na)) (out_throughput (snd na))"
    by (auto simp: G' final_node_entries in_out_node_pass node_load_def Let_def)
  have between: "(1 - u) ^ m * sum_list (map thr (filter P (edges E)))
                   \<le> float_sum ext (map thr (filter P (edges E)))
               \<and> float_sum ext (map thr (filter P (edges E)))
                   \<le> (1 + u) ^ m * sum_list (map thr (filter P (edges E)))" for P
  proof (rule float_sum_between[OF assms(2,3,4)])
    from nonneg show "\<forall>x \<in> set (map thr (filter P (edges E))). 0 \<le> x" by auto
    show "length (map thr (filter P (edges E))) \<le> m" by (simp add: m_def)
  qed
  have out_eq: "sum_list (map (\<lambda>na. out_throughput (snd na)) (nodes G))
      = sum_list (map (\<lambda>n. float_sum ext (map thr (out_edges E n))) (map fst (nodes E)))"
    by (simp add: G' final_node_entries node_load_def Let_def comp_def thr_def)
  have in_eq: "sum_list (map (\<lambda>na. in_throughput (snd na)) (nodes G))
      = sum_list (map (\<lambda>n. float_sum ext (map thr (in_edges E n))) (map fst (nodes E)))"
    by (simp add: G' final_node_entries node_load_def Let_def comp_def thr_def)
  have out_T: "sum_list (map (\<lambda>n. sum_list (map thr (out_edges E n))) (map fst (nodes E))) = T"
    unfolding T_def thr_def by (rule total_out_throughput[OF wf])
  have in_T: "sum_list (map (\<lambda>n. sum_list (map thr (in_edges E n))) (map fst (nodes E))) = T"
    unfolding T_def thr_def by (rule total_in_throughput[OF wf])
  have "(1 - u) ^ m * sum_list (map (\<lambda>n. sum_list (map thr (out_edges E n))) (map fst (nodes E)))
          \<le> sum_list (map (\<lambda>n. float_sum ext (map thr (out_edges E n))) (map fst (nodes E)))
      \<and> sum_list (map (\<lambda>n. float_sum ext (map thr (out_edges E n))) (map fst (nodes E)))
          \<le> (1 + u) ^ m * sum_list (map (\<lambda>n. sum_list (map thr (out_edges E n))) (map fst (nodes E)))"
    by (rule sum_list_between) (simp add: out_edges_def between)
  then have out_b: "(1 - u) ^ m * T \<le> sum_list (map (\<lambda>na. out_throughput (snd na)) (nodes G))"
    "sum_list (map (\<lambda>na. out_throughput (snd na)) (nodes G)) \<le> (1 + u) ^ m * T"
    by (simp_all only: out_T out_eq)
  have "(1 - u) ^ m * sum_list (map (\<lambda>n. sum_list (map thr (in_edges E n))) (map fst (nodes E)))
          \<le> sum_list (map (\<lambda>n. float_sum ext (map thr (in_edges E n))) (map fst (nodes E)))
      \<and> sum_list (map (\<lambda>n. float_sum ext (map thr (in_edges E n))) (map fst (nodes E)))
          \<le> (1 + u) ^ m * sum_list (map (\<lambda>n. sum_list (map thr (in_edges E n))) (map fst (nodes E)))"
    by (rule sum_list_between) (simp add: in_edges_def between)
  then have in_b: "(1 - u) ^ m * T \<le> sum_list (map (\<lambda>na. in_throughput (snd na)) (nodes G))"
    "sum_list (map (\<lambda>na. in_throughput (snd na)) (nodes G)) \<le> (1 + u) ^ m * T"
    by (simp_all only: in_T in_eq)
  from out_b in_b
  have "\<bar>sum_list (map (\<lambda>na. out_throughput (snd na)) (nodes G))
           - sum_list (map (\<lambda>na. in_throughput (snd na)) (nodes G))\<bar>
         \<le> (1 + u) ^ m * T - (1 - u) ^ m * T" by linarith
  also have "\<dots> = ((1 + u) ^ m - (1 - u) ^ m) * T" by (simp add: left_diff_distrib)
  finally have "\<bar>sum_list (map (\<lambda>na. out_throughput (snd na)) (nodes G))
           - sum_list (map (\<lambda>na. in_throughput (snd na)) (nodes G))\<bar>
         \<le> ((1 + u) ^ length (edges G) - (1 - u) ^ length (edges G))
             * sum_list (map (\<lambda>kv. throughput (snd kv)) (edges G))"
    by (simp only: m_def T_def thr_def edges)
  with per_node show ?thesis by blast
qed

text \<open>
  A log with two calls into C one second apart, built with an addition that errs upwards by
  one eighth: the three nodes of its graph, and the two totals, which differ by 9/64.
\<close>

definition coarse_ext :: externals where
  "coarse_ext = sample_ext\<lparr>float_add := (\<lambda>a b. (a + b) * (9 / 8))\<rparr>"

definition join_log :: "LogRecord list" where
  "join_log =
     [call ''2024-01-01T00:00:00Z'' ''A'' ''C'' 10,
      call ''2024-01-01T00:00:01Z'' ''B'' ''C'' 10]"

definition join_graph :: graph where
  "join_graph =
     \<lparr>nodes =
        [(''A'', \<lparr>load = 81 / 64, in_throughput = 0, out_throughput = 9 / 8\<rparr>),
         (''C'', \<lparr>load = 1377 / 512, in_throughput = 153 / 64, out_throughput = 0\<rparr>),
         (''B'', \<lparr>load = 81 / 64, in_throughput = 0, out_throughput = 9 / 8\<rparr>)],
      edges =
        [((''A'', ''C''),
          \<lparr>times_list = [10], count = 1, avg_latency = 10, throughput = 1,
           capacity_latency = 1 / 10, capacity_throughput = 1, capacity = 1\<rparr>),
         ((''B'', ''C''),
          \<lparr>times_list = [10], count = 1, avg_latency = 10, throughput = 1,
           capacity_latency = 1 / 10, capacity_throughput = 1, capacity = 1\<rparr>)]\<rparr>"

lemma build_graph_join: "build_graph coarse_ext join_log = Inr join_graph"
proof -
  have parsed: "parsed coarse_ext join_log = [Aware 1704067200000000 0, Aware 1704067201000000 0]"
    by (simp add: parsed_def join_log_def call_def coarse_ext_def sample_ext_def sample_iso_def
          replace_Z_def List.map_filter_simps)
  have span: "observation_span coarse_ext join_log = Inr 1"
    by (simp add: observation_span_parsed parsed time_window_def py_max_def py_min_def
          dt_lt_def dt_sub_def total_seconds_def Let_def)
  have first: "first_pass coarse_ext join_log =
     \<lparr>nodes = [(''A'', ()), (''C'', ()), (''B'', ())],
      edges = [((''A'', ''C''), \<lparr>times_list = [10], count = 1\<rparr>),
               ((''B'', ''C''), \<lparr>times_list = [10], count = 1\<rparr>)]\<rparr>"
    by (simp add: first_pass_fold join_log_def call_def edge_step_def has_edge_def add_edge_def
          add_node_def has_node_def empty_graph_def Let_def)
  have add: "float_add coarse_ext a b = (a + b) * (9 / 8)" for a b
    by (simp add: coarse_ext_def)
  show ?thesis
    by (simp add: build_graph_def first_pass_def[symmetric] first span
          edge_pass_def node_pass_def node_load_def float_sum_def derive_edge_def in_edges_def
          out_edges_def join_graph_def add Let_def)
qed

lemma rounds_within_coarse: "rounds_within (1 / 8) (float_add coarse_ext)"
  unfolding rounds_within_def
proof (intro allI)
  fix a b :: real
  have "float_add coarse_ext a b - (a + b) = 1 / 8 * (a + b)"
    by (simp add: coarse_ext_def algebra_simps)
  then have "\<bar>float_add coarse_ext a b - (a + b)\<bar> = \<bar>1 / 8 * (a + b)\<bar>"
    by (rule arg_cong)
  also have "\<dots> = 1 / 8 * \<bar>a + b\<bar>"
    by (simp add: abs_mult)
  finally show "\<bar>float_add coarse_ext a b - (a + b)\<bar> \<le> 1 / 8 * \<bar>a + b\<bar>"
    by (rule eq_refl)
qed

theorem build_graph_node_load_witness:
  "build_graph coarse_ext join_log = Inr join_graph
   \<and> rounds_within (1 / 8) (float_add coarse_ext) \<and> (0::real) \<le> 1 / 8 \<and> (1 / 8 :: real) \<le> 1
   \<and> map (\<lambda>na. (fst na, load (snd na), in_throughput (snd na), out_throughput (snd na)))
        (nodes join_graph)
     = [(''A'', 81 / 64, 0, 9 / 8), (''C'', 1377 / 512, 153 / 64, 0), (''B'', 81 / 64, 0, 9 / 8)]
   \<and> float_add coarse_ext 0 (9 / 8) = 81 / 64
   \<and> float_sum coarse_ext [1, 1] = 153 / 64
   \<and> sum_list (map (\<lambda>na. out_throughput (snd na)) (nodes join_graph)) = 9 / 4
   \<and> sum_list (map (\<lambda>na. in_throughput (snd na)) (nodes join_graph)) = 153 / 64
   \<and> \<bar>9 / 4 - 153 / 64 :: real\<bar> \<le> ((1 + 1 / 8) ^ 2 - (1 - 1 / 8) ^ 2) * 2"
proof -
  have u: "(0::real) \<le> 1 / 8" "(1 / 8 :: real) \<le> 1" by simp_all
  from build_graph_node_load[OF build_graph_join rounds_within_coarse u]
    build_graph_join rounds_within_coarse
  show ?thesis
    by (simp add: join_graph_def coarse_ext_def float_sum_def power2_eq_square)
qed

section \<open>Records whose timestamp does not parse\<close>



section \<open>The observation span\<close>

text \<open>
  C2, as stated (a floor of one second), fails: two calls half a second apart give the span
  \<open>1 / 2\<close> and the throughput \<open>4\<close>, where a floor of one second would give \<open>2\<close>.
\<close>

theorem span_floor_counterexample:
  "build_graph sample_ext half_log = Inr half_graph
   \<and> total_seconds (span_usec (parsed sample_ext half_log)) = 1 / 2
   \<and> max 1 (total_seconds (span_usec (parsed sample_ext half_log))) = 1
   \<and> observation_span sample_ext half_log = Inr (1 / 2)
   \<and> map (\<lambda>kv. throughput (snd kv)) (edges half_graph) = [4]
   \<and> map (\<lambda>kv. real (count (snd kv)) / 1) (edges half_graph) = [2]"
  by (simp add: build_graph_half span_half parsed_half span_usec_def total_seconds_def
        half_graph_def)

text \<open>
  C2, amended. When the builder returns, the span that every edge's throughput is derived
  from is the distance in seconds between the latest and the earliest timestamp that parses
  when that distance is positive, and \<open>1\<close> when it is zero or when no timestamp parses.
\<close>

theorem build_graph_span:
  assumes "build_graph ext records = Inr G"
  shows "\<exists>span. observation_span ext records = Inr span
     \<and> (\<forall>kv \<in> set (edges G). throughput (snd kv) = real (count (snd kv)) / span)
     \<and> span = (if parsed ext records = [] then 1
               else if 0 < total_seconds (span_usec (parsed ext records))
                    then total_seconds (span_usec (parsed ext records)) else 1)"
proof -
  from assms obtain d where d: "observation_span ext records = Inr d"
    and G: "G = node_pass ext (edge_pass d (first_pass ext records))"
    by (rule build_graph_Inr)
  have "\<forall>kv \<in> set (edges G). throughput (snd kv) = real (count (snd kv)) / d"
    by (auto simp: G edges_final derive_edge_def Let_def)
  moreover from d have "time_window (parsed ext records) = Inr d"
    by (simp add: observation_span_parsed)
  from time_window_Inr[OF this]
  have "d = (if parsed ext records = [] then 1
               else if 0 < total_seconds (span_usec (parsed ext records))
                    then total_seconds (span_usec (parsed ext records)) else 1)"
    by blast
  ultimately show ?thesis using d by blast
qed

text \<open>
  The two calls half a second apart.
\<close>

theorem build_graph_span_witness:
  "build_graph sample_ext half_log = Inr half_graph
   \<and> observation_span sample_ext half_log = Inr (1 / 2)
   \<and> map (\<lambda>kv. (throughput (snd kv), count (snd kv))) (edges half_graph) = [(4, 2)]
   \<and> total_seconds (span_usec (parsed sample_ext half_log)) = 1 / 2"
  using build_graph_span[OF build_graph_half] build_graph_half
  by (simp add: span_half parsed_half span_usec_def total_seconds_def half_graph_def)

section \<open>Sliding windows, aggregation and the batch run\<close>


text \<open>
  \<^verbatim>\<open>mbd/graph/bottleneck.py\<close>. A window result is the dictionary that
  \<^verbatim>\<open>analyze_time_windows\<close> appends: \<^verbatim>\<open>start\<close>, \<^verbatim>\<open>end\<close>, \<^verbatim>\<open>flow\<close> and
  \<^verbatim>\<open>min_cut\<close> are always there, \<^verbatim>\<open>cut_value\<close> only in a window that was solved.
\<close>

record window_result =
  start :: datetime
  end_dt :: datetime
  flow :: real
  min_cut :: "(string \<times> string) list"
  cut_value :: "real option"

text \<open>
  \<^verbatim>\<open>aggregate_bottlenecks\<close>. The counter is a dictionary, so a new edge goes to the end
  and a known edge keeps its place; \<^verbatim>\<open>sorted(..., reverse=True)\<close> is the stable sort in
  descending order of the key; \<^verbatim>\<open>items[:top_k]\<close> is Python's slice, which counts a
  negative bound from the end.
\<close>

definition bump :: "'k \<Rightarrow> ('k \<times> nat) list \<Rightarrow> ('k \<times> nat) list" where
  \<comment> \<open>\<^verbatim>\<open>counter[e] = counter.get(e, 0) + 1\<close>\<close>
  "bump e counter =
     AList.update e ((case map_of counter e of None \<Rightarrow> 0 | Some c \<Rightarrow> c) + 1) counter"

definition sorted_reverse :: "('a \<Rightarrow> nat) \<Rightarrow> 'a list \<Rightarrow> 'a list" where
  "sorted_reverse key xs = sort_key (\<lambda>x. - int (key x)) xs"

definition slice_to :: "'a list \<Rightarrow> int \<Rightarrow> 'a list" where
  "slice_to xs k = (if 0 \<le> k then take (nat k) xs else take (nat (int (length xs) + k)) xs)"

definition aggregate_bottlenecks ::
  "window_result list \<Rightarrow> int \<Rightarrow> ((string \<times> string) \<times> nat) list" where
  "aggregate_bottlenecks window_results top_k =
     (let counter = fold (\<lambda>w counter. fold bump (min_cut w) counter) window_results [];
          items = sorted_reverse snd counter
      in slice_to items top_k)"

text \<open>
  The position at which an edge is first seen, and the order of the ranking: a larger count
  first, and among equal counts the edge seen first.
\<close>

definition first_index :: "'a list \<Rightarrow> 'a \<Rightarrow> nat" where
  "first_index xs x = length (takeWhile (\<lambda>y. y \<noteq> x) xs)"

definition ranked_before :: "'a list \<Rightarrow> 'a \<times> nat \<Rightarrow> 'a \<times> nat \<Rightarrow> bool" where
  "ranked_before seen a b \<longleftrightarrow>
     snd b < snd a \<or> (snd a = snd b \<and> first_index seen (fst a) < first_index seen (fst b))"

lemma fold_bump_concat:
  "fold (\<lambda>w counter. fold bump (min_cut w) counter) ws c = fold bump (concat (map min_cut ws)) c"
  by (induction ws arbitrary: c) simp_all

lemma keys_bump: "map fst (bump e c) = (if e \<in> set (map fst c) then map fst c else map fst c @ [e])"
  by (simp add: bump_def update_keys)

lemma map_of_bump:
  "map_of (bump e c) k =
     (if k = e then Some ((case map_of c e of None \<Rightarrow> 0 | Some n \<Rightarrow> n) + 1) else map_of c k)"
  by (simp add: bump_def update_conv')

lemma fold_bump_snoc: "fold bump (es @ [e]) c = bump e (fold bump es c)"
  by simp

lemma map_of_fold_bump:
  "map_of (fold bump es []) k = (if k \<in> set es then Some (count_list es k) else None)"
proof (induction es arbitrary: k rule: rev_induct)
  case Nil
  show ?case by simp
next
  case (snoc e es)
  show ?case
    by (simp only: fold_bump_snoc map_of_bump snoc.IH) (auto simp: count_list_0_iff)
qed

lemma keys_fold_bump:
  "distinct (map fst (fold bump es [])) \<and> set (map fst (fold bump es [])) = set es
   \<and> sorted_wrt (\<lambda>a b. first_index es a < first_index es b) (map fst (fold bump es []))"
proof (induction es rule: rev_induct)
  case Nil
  show ?case by simp
next
  case (snoc e es)
  let ?ks = "map fst (fold bump es [])"
  from snoc.IH have d: "distinct ?ks" and s: "set ?ks = set es"
    and o: "sorted_wrt (\<lambda>a b. first_index es a < first_index es b) ?ks" by blast+
  have old: "first_index (es @ [e]) a = first_index es a" if "a \<in> set es" for a
    using that by (simp add: first_index_def takeWhile_append1)
  have new: "first_index (es @ [e]) e = length es" if "e \<notin> set es"
  proof -
    from that have "takeWhile (\<lambda>y. y \<noteq> e) es = es"
      by (auto simp: takeWhile_eq_all_conv)
    with that show ?thesis
      by (simp add: first_index_def takeWhile_append2)
  qed
  have lt: "first_index es a < length es" if "a \<in> set es" for a
    using that unfolding first_index_def by (induction es) auto
  have o': "sorted_wrt (\<lambda>a b. first_index (es @ [e]) a < first_index (es @ [e]) b) ?ks"
    by (rule sorted_wrt_mono_rel[OF _ o]) (use s old in auto)
  show ?case
  proof (cases "e \<in> set es")
    case True
    with d s o' show ?thesis
      by (simp only: fold_bump_snoc keys_bump) auto
  next
    case False
    with d s o' old new lt show ?thesis
      by (simp only: fold_bump_snoc keys_bump) (auto simp: sorted_wrt_append)
  qed
qed


lemma count_list_concat:
  "count_list (concat xss) x = sum_list (map (\<lambda>xs. count_list xs x) xss)"
  by (induction xss) simp_all

lemma count_list_distinct: "distinct xs \<Longrightarrow> count_list xs x = (if x \<in> set xs then 1 else 0)"
  by (induction xs) auto

lemma count_windows:
  assumes "\<forall>w \<in> set ws. distinct (min_cut w)"
  shows "count_list (concat (map min_cut ws)) e = length (filter (\<lambda>w. e \<in> set (min_cut w)) ws)"
  using assms by (induction ws) (simp_all add: count_list_distinct)

lemma sorted_wrt_filter_nth:
  assumes "sorted_wrt P (filter Q xs)" and "i < j" and "j < length xs"
    and "Q (xs ! i)" and "Q (xs ! j)"
  shows "P (xs ! i) (xs ! j)"
  using assms
proof (induction xs arbitrary: i j)
  case Nil
  then show ?case by simp
next
  case (Cons x xs)
  show ?case
  proof (cases i)
    case 0
    with Cons.prems obtain j' where j: "j = Suc j'" by (cases j) auto
    with Cons.prems 0 have "xs ! j' \<in> set (filter Q xs)" by simp
    with Cons.prems 0 j show ?thesis by simp
  next
    case (Suc i')
    with Cons.prems obtain j' where j: "j = Suc j'" by (cases j) auto
    from Cons.prems(1) have "sorted_wrt P (filter Q xs)"
      by (simp split: if_splits)
    from Cons.IH[OF this, of i' j'] Cons.prems Suc j show ?thesis by simp
  qed
qed

lemma sorted_reverse_ranked:
  assumes "sorted_wrt (\<lambda>a b. first_index seen (fst a) < first_index seen (fst b)) items"
  shows "sorted_wrt (ranked_before seen) (sorted_reverse snd items)"
proof -
  let ?key = "\<lambda>x::'a \<times> nat. - int (snd x)"
  let ?S = "sort_key ?key items"
  let ?P = "\<lambda>a b. first_index seen (fst a) < first_index seen (fst b)"
  have srt: "sorted (map ?key ?S)" by (rule sorted_sort_key)
  have "ranked_before seen (?S ! i) (?S ! j)" if "i < j" "j < length ?S" for i j
  proof -
    from srt that have le: "?key (?S ! i) \<le> ?key (?S ! j)"
      by (simp add: sorted_iff_nth_mono)
    show ?thesis
    proof (cases "snd (?S ! i) = snd (?S ! j)")
      case False
      with le show ?thesis by (simp add: ranked_before_def)
    next
      case True
      let ?k = "?key (?S ! j)"
      have "filter (\<lambda>y. ?key y = ?k) ?S = filter (\<lambda>y. ?key y = ?k) items"
        by (rule sort_key_stable)
      with assms have "sorted_wrt ?P (filter (\<lambda>y. ?key y = ?k) ?S)"
        by (simp add: sorted_wrt_filter)
      from sorted_wrt_filter_nth[OF this that] True have "?P (?S ! i) (?S ! j)" by simp
      with True show ?thesis by (simp add: ranked_before_def)
    qed
  qed
  then show ?thesis
    by (simp add: sorted_reverse_def sorted_wrt_iff_nth_less)
qed


lemma slice_to_subset: "set (slice_to xs k) \<subseteq> set xs"
  by (auto simp: slice_to_def dest: in_set_takeD)

lemma counter_entries:
  assumes "kv \<in> set (fold bump es [])"
  shows "snd kv = count_list es (fst kv)"
proof -
  from keys_fold_bump[of es] have "distinct (map fst (fold bump es []))" by blast
  with assms have "map_of (fold bump es []) (fst kv) = Some (snd kv)" by simp
  then show ?thesis
    by (simp add: map_of_fold_bump split: if_splits)
qed

lemma length_counter: "length (fold bump es []) = card (set es)"
proof -
  from keys_fold_bump[of es] have "distinct (map fst (fold bump es []))"
    and "set (map fst (fold bump es [])) = set es" by blast+
  then have "card (set es) = length (map fst (fold bump es []))"
    by (metis distinct_card)
  then show ?thesis by simp
qed

section \<open>Ranking of the aggregated bottlenecks\<close>

text \<open>
  C4, amended. For a top_k that is not negative the result has exactly
  min (top_k, number of distinct cut edges seen) entries, and for any top_k at most the number
  of distinct cut edges seen; the count of each listed edge is the number of its occurrences
  in the min_cut lists of the windows, which is the number of windows whose min_cut contains
  it when no window lists an edge twice; the entries are in descending order of count, and
  entries of equal count are in the order in which their edges were first seen.
\<close>

theorem aggregate_bottlenecks_ranked:
  "(0 \<le> top_k \<longrightarrow>
      length (aggregate_bottlenecks ws top_k) = min (nat top_k) (card (set (concat (map min_cut ws)))))
   \<and> length (aggregate_bottlenecks ws top_k) \<le> card (set (concat (map min_cut ws)))
   \<and> (\<forall>kv \<in> set (aggregate_bottlenecks ws top_k).
         snd kv = count_list (concat (map min_cut ws)) (fst kv)
       \<and> ((\<forall>w \<in> set ws. distinct (min_cut w)) \<longrightarrow>
            snd kv = length (filter (\<lambda>w. fst kv \<in> set (min_cut w)) ws)))
   \<and> sorted_wrt (ranked_before (concat (map min_cut ws))) (aggregate_bottlenecks ws top_k)"
proof -
  let ?seen = "concat (map min_cut ws)"
  let ?counter = "fold bump ?seen []"
  let ?items = "sorted_reverse snd ?counter"
  have res: "aggregate_bottlenecks ws top_k = slice_to ?items top_k"
    by (simp add: aggregate_bottlenecks_def fold_bump_concat)
  have len_items: "length ?items = card (set ?seen)"
    by (simp add: sorted_reverse_def length_counter)
  have len1: "0 \<le> top_k \<longrightarrow> length (slice_to ?items top_k) = min (nat top_k) (card (set ?seen))"
    using len_items by (simp add: slice_to_def min_def)
  have "length (slice_to ?items top_k) \<le> length ?items"
    by (auto simp: slice_to_def)
  with len_items have len2: "length (slice_to ?items top_k) \<le> card (set ?seen)"
    by (simp only:)
  have mem: "kv \<in> set ?counter" if "kv \<in> set (slice_to ?items top_k)" for kv
    using that slice_to_subset[of ?items top_k] by (auto simp: sorted_reverse_def)
  have counts: "\<forall>kv \<in> set (slice_to ?items top_k).
         snd kv = count_list ?seen (fst kv)
       \<and> ((\<forall>w \<in> set ws. distinct (min_cut w)) \<longrightarrow>
            snd kv = length (filter (\<lambda>w. fst kv \<in> set (min_cut w)) ws))"
    using counter_entries[OF mem] by (simp add: count_windows)
  from keys_fold_bump[of ?seen]
  have "sorted_wrt (\<lambda>a b. first_index ?seen (fst a) < first_index ?seen (fst b)) ?counter"
    by (simp add: sorted_wrt_map)
  then have "sorted_wrt (ranked_before ?seen) ?items"
    by (rule sorted_reverse_ranked)
  then have ranked: "sorted_wrt (ranked_before ?seen) (slice_to ?items top_k)"
    by (simp add: slice_to_def sorted_wrt_take)
  from len1 len2 counts ranked show ?thesis
    unfolding res by blast
qed

text \<open>Window results for the examples of the ranking.\<close>

definition cut_window :: "(string \<times> string) list \<Rightarrow> window_result" where
  "cut_window es = \<lparr>start = Aware 0 0, end_dt = Aware 60000000 0, flow = 1, min_cut = es,
                    cut_value = Some 1\<rparr>"

definition empty_window :: window_result where
  "empty_window = \<lparr>start = Aware 0 0, end_dt = Aware 60000000 0, flow = 0, min_cut = [],
                    cut_value = None\<rparr>"


definition ranked_windows :: "window_result list" where
  "ranked_windows =
     [cut_window [(''P'', ''Q''), (''X'', ''Y''), (''R'', ''S'')], cut_window [(''X'', ''Y'')],
      empty_window]"

text \<open>Three windows: the edge from X to Y is cut in two of them.\<close>

theorem aggregate_bottlenecks_ranked_witness:
  "(0::int) \<le> 10
   \<and> list_all (\<lambda>w. distinct (min_cut w)) ranked_windows
   \<and> aggregate_bottlenecks ranked_windows 10
       = [((''X'', ''Y''), 2), ((''P'', ''Q''), 1), ((''R'', ''S''), 1)]
   \<and> aggregate_bottlenecks ranked_windows 1 = [((''X'', ''Y''), 2)]
   \<and> concat (map min_cut ranked_windows)
       = [(''P'', ''Q''), (''X'', ''Y''), (''R'', ''S''), (''X'', ''Y'')]
   \<and> length (filter (\<lambda>w. (''X'', ''Y'') \<in> set (min_cut w)) ranked_windows) = 2"
  using aggregate_bottlenecks_ranked[of 10 ranked_windows]
  by (simp add: aggregate_bottlenecks_def ranked_windows_def cut_window_def empty_window_def
        bump_def sorted_reverse_def slice_to_def)

text \<open>
  C4, as stated, fails: an edge listed twice in one window's min_cut is counted twice, and a
  negative top_k drops entries from the end of the ranking rather than giving
  min (top_k, number of distinct edges) entries.
\<close>

theorem aggregate_bottlenecks_counterexample:
  "aggregate_bottlenecks [cut_window [(''X'', ''Y''), (''X'', ''Y'')]] 10 = [((''X'', ''Y''), 2)]
   \<and> length (filter (\<lambda>w. (''X'', ''Y'') \<in> set (min_cut w))
               [cut_window [(''X'', ''Y''), (''X'', ''Y'')]]) = 1
   \<and> aggregate_bottlenecks [cut_window [(''X'', ''Y'')], cut_window [(''P'', ''Q'')]] (- 1)
       = [((''X'', ''Y''), 1)]
   \<and> min (- 1) (int (card (set (concat (map min_cut
         [cut_window [(''X'', ''Y'')], cut_window [(''P'', ''Q'')]]))))) = - 1"
  by (simp add: aggregate_bottlenecks_def cut_window_def bump_def sorted_reverse_def slice_to_def)


text \<open>
  The zero-flow result of lines 50, 57 and 65, and the generator \<^verbatim>\<open>sliding_windows\<close>:
  \<open>sliding_windows\<close> is the code before the loop (lines 19 to 25) and gives the state of the
  generator, at the head of its loop; after a \<^verbatim>\<open>yield\<close> the generator is suspended, and
  \<open>next_window\<close> resumes it: it advances \<^verbatim>\<open>current\<close> (line 29) and goes to the head of
  the loop, which tests, computes the end of the window (line 27) and yields.
  \<open>for_windows\<close> is the \<^verbatim>\<open>for\<close> statement that consumes the generator, \<open>None\<close> when
  it never ends.
\<close>

definition sentinel :: "datetime \<Rightarrow> datetime \<Rightarrow> window_result" where
  "sentinel s e = \<lparr>start = s, end_dt = e, flow = 0, min_cut = [], cut_value = None\<rparr>"

datatype window_gen = Finished | Loop datetime datetime | Suspended datetime datetime

definition parse_all :: "externals \<Rightarrow> LogRecord list \<Rightarrow> error + datetime list" where
  "parse_all ext records =
     foldr (\<lambda>r rest. case parse_iso_z ext (timestamp r) of Inl x \<Rightarrow> Inl x
                      | Inr ts \<Rightarrow> (case rest of Inl x \<Rightarrow> Inl x | Inr tss \<Rightarrow> Inr (ts # tss)))
       records (Inr [])"

definition sliding_windows :: "externals \<Rightarrow> LogRecord list \<Rightarrow> error + window_gen" where
  "sliding_windows ext records =
     (if records = [] then Inr Finished
      else (case parse_all ext records of Inl x \<Rightarrow> Inl x | Inr tms \<Rightarrow>
             (case py_min tms of Inl x \<Rightarrow> Inl x | Inr first \<Rightarrow>
               (case py_max tms of Inl x \<Rightarrow> Inl x | Inr final \<Rightarrow> Inr (Loop first final)))))"

definition loop_head ::
  "int \<Rightarrow> datetime \<Rightarrow> datetime \<Rightarrow> error + ((datetime \<times> datetime) \<times> window_gen) option" where
  \<comment> \<open>the test of the \<^verbatim>\<open>while\<close>, the end of the window, and the \<^verbatim>\<open>yield\<close>\<close>
  "loop_head window_seconds current final =
     (case dt_le current final of
        Inl x \<Rightarrow> Inl x
      | Inr b \<Rightarrow>
          if b then
            (case timedelta window_seconds of
               Inl x \<Rightarrow> Inl x
             | Inr wd \<Rightarrow>
                 (case dt_add current wd of
                    Inl x \<Rightarrow> Inl x
                  | Inr window_end \<Rightarrow>
                      Inr (Some ((current, window_end), Suspended current final))))
          else Inr None)"

definition next_window ::
  "int \<Rightarrow> int \<Rightarrow> window_gen \<Rightarrow> error + ((datetime \<times> datetime) \<times> window_gen) option" where
  "next_window window_seconds step_seconds g =
     (case g of
        Finished \<Rightarrow> Inr None
      | Loop current final \<Rightarrow> loop_head window_seconds current final
      | Suspended current final \<Rightarrow>
          (case timedelta step_seconds of
             Inl x \<Rightarrow> Inl x
           | Inr sd \<Rightarrow>
               (case dt_add current sd of
                  Inl x \<Rightarrow> Inl x
                | Inr advanced \<Rightarrow> loop_head window_seconds advanced final)))"

partial_function (option) for_windows ::
  "(datetime \<Rightarrow> datetime \<Rightarrow> error + 'a) \<Rightarrow> int \<Rightarrow> int \<Rightarrow> window_gen \<Rightarrow> 'a list
     \<Rightarrow> (error + 'a list) option" where
  "for_windows body window_seconds step_seconds g results =
     (case next_window window_seconds step_seconds g of
        Inl x \<Rightarrow> Some (Inl x)
      | Inr None \<Rightarrow> Some (Inr results)
      | Inr (Some (win, g')) \<Rightarrow>
          (case body (fst win) (snd win) of
             Inl x \<Rightarrow> Some (Inl x)
           | Inr r \<Rightarrow> for_windows body window_seconds step_seconds g' (results @ [r])))"

text \<open>
  \<^verbatim>\<open>records_in_window\<close> (the chained comparison stops at the first false part), the
  collection of the cut edges (lines 69 to 73), \<^verbatim>\<open>GraphAnalyzer.max_flow\<close> and
  \<^verbatim>\<open>GraphAnalyzer.min_cut\<close>, the body of the loop of \<^verbatim>\<open>analyze_time_windows\<close> for one
  window, and \<^verbatim>\<open>analyze_time_windows\<close> itself.
\<close>

fun records_in_window ::
  "externals \<Rightarrow> LogRecord list \<Rightarrow> datetime \<Rightarrow> datetime \<Rightarrow> error + LogRecord list" where
  "records_in_window ext [] s e = Inr []"
| "records_in_window ext (r # rs) s e =
     (case parse_iso_z ext (timestamp r) of Inl x \<Rightarrow> Inl x | Inr ts \<Rightarrow>
       (case dt_le s ts of Inl x \<Rightarrow> Inl x | Inr lo \<Rightarrow>
         (case (if lo then dt_le ts e else Inr False) of Inl x \<Rightarrow> Inl x | Inr inside \<Rightarrow>
           (case records_in_window ext rs s e of Inl x \<Rightarrow> Inl x | Inr out \<Rightarrow>
              Inr (if inside then r # out else out)))))"

fun cut_edges :: "graph \<Rightarrow> string list \<Rightarrow> string list \<Rightarrow> error + (string \<times> string) list" where
  "cut_edges G [] T = Inr []"
| "cut_edges G (u # S) T =
     (case successors G u of Inl x \<Rightarrow> Inl x | Inr vs \<Rightarrow>
       (case cut_edges G S T of Inl x \<Rightarrow> Inl x | Inr rest \<Rightarrow>
          Inr (map (\<lambda>v. (u, v)) (filter (\<lambda>v. v \<in> set T) vs) @ rest)))"

definition GraphAnalyzer_max_flow ::
  "externals \<Rightarrow> graph \<Rightarrow> string \<Rightarrow> string \<Rightarrow> string \<Rightarrow> error + (real \<times> flow_dict)" where
  "GraphAnalyzer_max_flow ext G source sink capacity_attr = maximum_flow ext G source sink capacity_attr"

definition GraphAnalyzer_min_cut ::
  "externals \<Rightarrow> graph \<Rightarrow> string \<Rightarrow> string \<Rightarrow> string
     \<Rightarrow> error + (real \<times> (string list \<times> string list))" where
  "GraphAnalyzer_min_cut ext G source sink capacity_attr = minimum_cut ext G source sink capacity_attr"

definition analyze_window ::
  "externals \<Rightarrow> LogRecord list \<Rightarrow> string \<Rightarrow> string \<Rightarrow> string \<Rightarrow> datetime \<Rightarrow> datetime
     \<Rightarrow> error + window_result" where
  "analyze_window ext records source sink capacity_attr s e =
     (case records_in_window ext records s e of Inl x \<Rightarrow> Inl x | Inr window_records \<Rightarrow>
        if window_records = [] then Inr (sentinel s e)
        else (case build_graph ext window_records of Inl x \<Rightarrow> Inl x | Inr G \<Rightarrow>
          if \<not> has_node G source \<or> \<not> has_node G sink then Inr (sentinel s e)
          else (case GraphAnalyzer_max_flow ext G source sink capacity_attr of
                  Inl x \<Rightarrow> Inr (sentinel s e)
                | Inr fl \<Rightarrow>
                 (case GraphAnalyzer_min_cut ext G source sink capacity_attr of
                    Inl x \<Rightarrow> Inr (sentinel s e)
                  | Inr ct \<Rightarrow>
                     (case cut_edges G (fst (snd ct)) (snd (snd ct)) of
                        Inl x \<Rightarrow> Inl x
                      | Inr bottlenecks \<Rightarrow>
                          Inr \<lparr>start = s, end_dt = e, flow = fst fl, min_cut = bottlenecks,
                               cut_value = Some (fst ct)\<rparr>)))))"

definition analyze_time_windows ::
  "externals \<Rightarrow> LogRecord list \<Rightarrow> string \<Rightarrow> string \<Rightarrow> int \<Rightarrow> int \<Rightarrow> string
     \<Rightarrow> (error + window_result list) option" where
  "analyze_time_windows ext records source sink window_seconds step_seconds capacity_attr =
     (case sliding_windows ext records of
        Inl x \<Rightarrow> Some (Inl x)
      | Inr g \<Rightarrow>
          for_windows (analyze_window ext records source sink capacity_attr)
            window_seconds step_seconds g [])"


text \<open>
  The windows that the generator yields when the step is positive, the condition under which
  none of its additions leaves the range of dates, and the loop body run over a list of
  windows.
\<close>

definition window_count :: "datetime \<Rightarrow> datetime \<Rightarrow> int \<Rightarrow> nat" where
  "window_count c e step_seconds =
     (if usec c \<le> usec e then nat ((usec e - usec c) div usecs step_seconds) + 1 else 0)"

definition expected_windows ::
  "datetime \<Rightarrow> datetime \<Rightarrow> int \<Rightarrow> int \<Rightarrow> (datetime \<times> datetime) list" where
  "expected_windows c e window_seconds step_seconds =
     map (\<lambda>k. (shift c (usecs (int k * step_seconds)),
               shift c (usecs (int k * step_seconds + window_seconds))))
       [0 ..< window_count c e step_seconds]"

definition fits :: "datetime \<Rightarrow> datetime \<Rightarrow> int \<Rightarrow> int \<Rightarrow> bool" where
  \<comment> \<open>the first and the last window end, and the last advance, are in the range of dates\<close>
  "fits c e wd sd \<longleftrightarrow>
     datetime_min \<le> wall c \<and> datetime_min \<le> wall c + wd
     \<and> wall c + (usec e - usec c) div sd * sd + wd \<le> datetime_max
     \<and> wall c + (usec e - usec c) div sd * sd + sd \<le> datetime_max"

fun run_bodies ::
  "(datetime \<Rightarrow> datetime \<Rightarrow> error + 'a) \<Rightarrow> (datetime \<times> datetime) list \<Rightarrow> 'a list
     \<Rightarrow> error + 'a list" where
  "run_bodies body [] results = Inr results"
| "run_bodies body (win # wins) results =
     (case body (fst win) (snd win) of
        Inl x \<Rightarrow> Inl x
      | Inr r \<Rightarrow> run_bodies body wins (results @ [r]))"

lemma dt_add_props [simp]:
  "usec (shift c d) = usec c + d" "aware (shift c d) = aware c"
  "shift (shift c a) b = shift c (a + b)" "shift c 0 = c"
  by (cases c; simp)+

lemma usecs_add: "usecs (a + b) = usecs a + usecs b"
  by (simp add: usecs_def algebra_simps)

lemma usecs_pos: "0 < usecs s \<longleftrightarrow> 0 < s"
  by (simp add: usecs_def)

lemma window_count_step:
  assumes "0 < s" and "usec c \<le> usec e"
  shows "window_count c e s = Suc (window_count (shift c (usecs s)) e s)"
proof -
  let ?S = "usecs s"
  from assms have S: "0 < ?S" by (simp add: usecs_pos)
  show ?thesis
  proof (cases "usec c + ?S \<le> usec e")
    case True
    have "((usec e - (usec c + ?S)) + ?S) div ?S = (usec e - (usec c + ?S)) div ?S + 1"
      using S by (simp only: div_add_self2)
    then have "(usec e - (usec c + ?S)) div ?S = (usec e - usec c) div ?S - 1"
      by (simp add: algebra_simps)
    moreover have "?S div ?S \<le> (usec e - usec c) div ?S"
      using True S by (intro zdiv_mono1) simp_all
    with S have "1 \<le> (usec e - usec c) div ?S" by simp
    ultimately show ?thesis using True assms
      by (simp add: window_count_def)
  next
    case False
    with assms S have "(usec e - usec c) div ?S = 0"
      by (simp add: div_pos_pos_trivial)
    with False assms show ?thesis
      by (simp add: window_count_def)
  qed
qed

lemma expected_windows_step:
  assumes "0 < s" and "usec c \<le> usec e"
  shows "expected_windows c e w s =
           (c, shift c (usecs w)) # expected_windows (shift c (usecs s)) e w s"
proof -
  have z: "usecs 0 = 0" by (simp add: usecs_def)
  have "usecs s + usecs (int k * s) = usecs (int (Suc k) * s)"
    and "usecs s + usecs (int k * s + w) = usecs (int (Suc k) * s + w)" for k
    by (simp_all add: usecs_def algebra_simps)
  then show ?thesis
    by (simp add: expected_windows_def window_count_step[OF assms] map_upt_Suc z del: upt_Suc)
qed

lemma expected_windows_done: "usec e < usec c \<Longrightarrow> expected_windows c e w s = []"
  by (simp add: expected_windows_def window_count_def)

lemma wall_shift [simp]: "wall (shift c d) = wall c + d"
  by (cases c) simp_all

lemma timedelta_Inr: "timedelta s = Inr d \<Longrightarrow> d = usecs s"
  by (simp add: timedelta_def split: if_splits)

lemma for_windows_resume:
  assumes "timedelta s = Inr sd" and "dt_add c sd = Inr c'"
  shows "for_windows body w s (Suspended c e) acc = for_windows body w s (Loop c' e) acc"
  by (simp add: for_windows.simps[of _ _ _ "Suspended c e"] for_windows.simps[of _ _ _ "Loop c' e"]
        next_window_def assms)

lemma fits_step:
  assumes "0 < sd" and "usec c \<le> usec e" and "fits c e wd sd"
  shows "dt_add c wd = Inr (shift c wd)" and "dt_add c sd = Inr (shift c sd)"
    and "fits (shift c sd) e wd sd"
proof -
  let ?q = "(usec e - usec c) div sd"
  from assms(1,2) have q: "0 \<le> ?q" by (simp add: pos_imp_zdiv_nonneg_iff)
  with assms(1) have qs: "0 \<le> ?q * sd" by simp
  from assms(3) have lo: "datetime_min \<le> wall c" "datetime_min \<le> wall c + wd"
    and hi: "wall c + ?q * sd + wd \<le> datetime_max" "wall c + ?q * sd + sd \<le> datetime_max"
    by (simp_all add: fits_def)
  from lo hi qs show "dt_add c wd = Inr (shift c wd)"
    by (simp add: dt_add_def)
  from lo hi qs assms(1) show "dt_add c sd = Inr (shift c sd)"
    by (simp add: dt_add_def)
  have "(usec e - usec c - sd + sd) div sd = (usec e - usec c - sd) div sd + 1"
    using assms(1) by (simp only: div_add_self2)
  then have "(usec e - usec c - sd) div sd = ?q - 1" by simp
  moreover have "usec e - usec (shift c sd) = usec e - usec c - sd" by simp
  ultimately have "(usec e - usec (shift c sd)) div sd * sd = (?q - 1) * sd"
    by (simp only:)
  also have "\<dots> = ?q * sd - sd" by (simp add: algebra_simps)
  finally have "wall (shift c sd) + (usec e - usec (shift c sd)) div sd * sd = wall c + ?q * sd"
    by simp
  with lo hi assms(1) show "fits (shift c sd) e wd sd"
    by (simp add: fits_def)
qed

lemma for_windows_result:
  assumes "0 < s" and "timedelta w = Inr wd" and "timedelta s = Inr sd"
    and "aware c = aware e" and "usec c \<le> usec e \<longrightarrow> fits c e wd sd"
  shows "for_windows body w s (Loop c e) acc = Some (run_bodies body (expected_windows c e w s) acc)"
  using assms(4,5)
proof (induction "window_count c e s" arbitrary: c acc)
  case 0
  then have "usec e < usec c"
    by (simp add: window_count_def split: if_splits)
  with 0 show ?case
    by (subst for_windows.simps)
       (simp add: next_window_def loop_head_def dt_le_def expected_windows_done)
next
  case (Suc n)
  then have le: "usec c \<le> usec e"
    by (simp add: window_count_def split: if_splits)
  from timedelta_Inr[OF assms(2)] timedelta_Inr[OF assms(3)]
  have wd: "wd = usecs w" and sd: "sd = usecs s" .
  from assms(1) sd have pos: "0 < sd" by (simp add: usecs_pos)
  from le Suc.prems(2) have fit: "fits c e wd sd" by simp
  let ?c' = "shift c sd"
  note st = fits_step[OF pos le fit]
  from Suc.hyps(2) window_count_step[OF assms(1) le] have n: "n = window_count ?c' e s"
    by (simp add: sd)
  from Suc.prems(1) have aw: "aware ?c' = aware e" by simp
  from st(3) have "usec ?c' \<le> usec e \<longrightarrow> fits ?c' e wd sd" by simp
  note IH = Suc.hyps(1)[OF n aw this]
  have head: "next_window w s (Loop c e) = Inr (Some ((c, shift c wd), Suspended c e))"
    using le Suc.prems(1) assms(2) st(1) by (simp add: next_window_def loop_head_def dt_le_def)
  have resume: "for_windows body w s (Suspended c e) acc' = for_windows body w s (Loop ?c' e) acc'"
    for acc'
    by (rule for_windows_resume[OF assms(3) st(2)])
  show ?case
    by (subst for_windows.simps)
       (simp add: head resume IH expected_windows_step[OF assms(1) le] wd[symmetric] sd[symmetric]
             split: sum.splits)
qed


text \<open>
  Notions for the statements: every timestamp parses; a record lies in a window; the records
  selected by a window; the edges of a graph that go from one node list to another.
\<close>

definition all_parse :: "externals \<Rightarrow> LogRecord list \<Rightarrow> bool" where
  "all_parse ext records \<longleftrightarrow>
     list_all (\<lambda>r. fromisoformat ext (replace_Z (timestamp r)) \<noteq> None) records"

definition in_window :: "externals \<Rightarrow> datetime \<Rightarrow> datetime \<Rightarrow> LogRecord \<Rightarrow> bool" where
  "in_window ext s e r =
     (case fromisoformat ext (replace_Z (timestamp r)) of
        None \<Rightarrow> False
      | Some ts \<Rightarrow> usec s \<le> usec ts \<and> usec ts \<le> usec e)"

definition selection :: "externals \<Rightarrow> LogRecord list \<Rightarrow> datetime \<Rightarrow> datetime \<Rightarrow> LogRecord list" where
  "selection ext records s e = filter (in_window ext s e) records"

definition crossing :: "graph \<Rightarrow> string list \<Rightarrow> string list \<Rightarrow> (string \<times> string) set" where
  "crossing G S T = {k \<in> fst ` set (edges G). fst k \<in> set S \<and> snd k \<in> set T}"

lemma uniform_iff: "uniform ts \<longleftrightarrow> (\<forall>a \<in> set ts. \<forall>b \<in> set ts. aware a = aware b)"
proof
  assume u: "uniform ts"
  show "\<forall>a \<in> set ts. \<forall>b \<in> set ts. aware a = aware b"
  proof (intro ballI)
    fix a b assume "a \<in> set ts" "b \<in> set ts"
    with u have "aware a = aware (hd ts)" "aware b = aware (hd ts)"
      unfolding uniform_def by blast+
    then show "aware a = aware b" by (rule trans[OF _ sym])
  qed
next
  assume r: "\<forall>a \<in> set ts. \<forall>b \<in> set ts. aware a = aware b"
  show "uniform ts"
    unfolding uniform_def
  proof
    fix t assume t: "t \<in> set ts"
    then have "hd ts \<in> set ts" by (cases ts) auto
    with r t show "aware t = aware (hd ts)" by blast
  qed
qed

lemma uniform_subset: "uniform ts \<Longrightarrow> set ts' \<subseteq> set ts \<Longrightarrow> uniform ts'"
  unfolding uniform_iff by blast

lemma parsed_Nil [simp]: "parsed ext [] = []"
  by (simp add: parsed_def List.map_filter_simps)

lemma parsed_Cons:
  "parsed ext (r # rs) =
     (case fromisoformat ext (replace_Z (timestamp r)) of
        None \<Rightarrow> parsed ext rs | Some ts \<Rightarrow> ts # parsed ext rs)"
  by (simp add: parsed_def List.map_filter_simps split: option.splits)

lemma set_parsed:
  "set (parsed ext rs) = {ts. \<exists>r \<in> set rs. fromisoformat ext (replace_Z (timestamp r)) = Some ts}"
  by (induction rs) (auto simp: parsed_Cons split: option.splits)

lemma parse_all_Inr: "all_parse ext rs \<Longrightarrow> parse_all ext rs = Inr (parsed ext rs)"
  by (induction rs) (auto simp: all_parse_def parse_all_def parsed_Cons parse_iso_z_def)

lemma parse_all_Inl: "\<not> all_parse ext rs \<Longrightarrow> parse_all ext rs = Inl ValueError"
  by (induction rs)
     (auto simp: all_parse_def parse_all_def parse_iso_z_def split: option.splits sum.splits)

lemma all_parse_nonempty: "all_parse ext rs \<Longrightarrow> rs \<noteq> [] \<Longrightarrow> parsed ext rs \<noteq> []"
  by (cases rs) (auto simp: all_parse_def parsed_Cons)

lemma sliding_windows_Loop:
  assumes "records \<noteq> []" and "all_parse ext records" and "uniform (parsed ext records)"
  obtains first final where "sliding_windows ext records = Inr (Loop first final)"
    and "py_min (parsed ext records) = Inr first" and "py_max (parsed ext records) = Inr final"
proof -
  from all_parse_nonempty[OF assms(2,1)] have ne: "parsed ext records \<noteq> []" .
  from py_min_uniform[OF ne assms(3)] obtain first where
    mn: "py_min (parsed ext records) = Inr first" ..
  from py_max_uniform[OF ne assms(3)] obtain final where
    mx: "py_max (parsed ext records) = Inr final" ..
  have "sliding_windows ext records = Inr (Loop first final)"
    using assms(1) mn mx by (simp add: sliding_windows_def parse_all_Inr[OF assms(2)])
  with mn mx that show thesis by blast
qed

lemma records_in_window_selection:
  assumes "all_parse ext rs" and "\<forall>t \<in> set (parsed ext rs). aware t = aware s"
    and "aware e = aware s"
  shows "records_in_window ext rs s e = Inr (selection ext rs s e)"
  using assms(1,2)
proof (induction rs)
  case Nil
  show ?case by (simp add: selection_def)
next
  case (Cons r rs)
  from Cons.prems(1) obtain ts where ts: "fromisoformat ext (replace_Z (timestamp r)) = Some ts"
    by (auto simp: all_parse_def)
  with Cons.prems(2) have aw: "aware ts = aware s" by (simp add: parsed_Cons)
  from Cons.prems ts have "records_in_window ext rs s e = Inr (selection ext rs s e)"
    by (intro Cons.IH) (simp_all add: all_parse_def parsed_Cons)
  with ts aw assms(3) show ?case
    by (simp add: parse_iso_z_def dt_le_def selection_def in_window_def)
qed

lemma parsed_selection_subset: "set (parsed ext (selection ext rs s e)) \<subseteq> set (parsed ext rs)"
  by (auto simp: set_parsed selection_def)

lemma build_graph_returns:
  assumes "uniform (parsed ext rs)"
  obtains G where "build_graph ext rs = Inr G"
proof -
  from time_window_uniform[OF assms] obtain d where "observation_span ext rs = Inr d"
    by (auto simp: observation_span_parsed)
  then have "build_graph ext rs = Inr (node_pass ext (edge_pass d (first_pass ext rs)))"
    by (simp add: build_graph_def first_pass_def)
  then show thesis by (rule that)
qed

lemma build_graph_nodes:
  assumes "build_graph ext rs = Inr G"
  shows "has_node G n \<longleftrightarrow> n \<in> src_service ` set rs \<union> dst_service ` set rs"
proof -
  from assms obtain d where G: "G = node_pass ext (edge_pass d (first_pass ext rs))"
    by (rule build_graph_Inr)
  have "set (map fst (nodes G)) = fst ` set (nodes (first_pass ext rs))"
    unfolding G nodes_final by simp
  then show ?thesis
    by (simp add: has_node_def node_set_first_pass)
qed

lemma cut_edges_Inr:
  assumes "\<forall>u \<in> set S. has_node G u"
  obtains es where "cut_edges G S T = Inr es" and "set es = crossing G S T"
    and "distinct (map fst (edges G)) \<Longrightarrow> distinct S \<Longrightarrow> distinct es"
proof -
  have "\<exists>es. cut_edges G S T = Inr es \<and> set es = crossing G S T
          \<and> (distinct (map fst (edges G)) \<longrightarrow> distinct S \<longrightarrow> distinct es)
          \<and> fst ` set es \<subseteq> set S"
    using assms
  proof (induction S)
    case Nil
    show ?case by (simp add: crossing_def)
  next
    case (Cons u S)
    then obtain rest where rest: "cut_edges G S T = Inr rest" "set rest = crossing G S T"
      "distinct (map fst (edges G)) \<longrightarrow> distinct S \<longrightarrow> distinct rest" "fst ` set rest \<subseteq> set S"
      by auto
    let ?here = "map (\<lambda>v. (u, v)) (filter (\<lambda>v. v \<in> set T) (map (\<lambda>kv. snd (fst kv)) (out_edges G u)))"
    from Cons.prems rest(1) have eq: "cut_edges G (u # S) T = Inr (?here @ rest)"
      by (simp add: successors_def)
    have here: "set ?here = {k \<in> fst ` set (edges G). fst k = u \<and> snd k \<in> set T}"
      by (force simp: out_edges_def)
    have d_here: "distinct ?here" if "distinct (map fst (edges G))"
    proof -
      have "map fst (out_edges G u) = filter (\<lambda>k. fst k = u) (map fst (edges G))"
        by (simp add: out_edges_def filter_map comp_def)
      with that have "distinct (map fst (out_edges G u))" by simp
      moreover have "?here = filter (\<lambda>k. snd k \<in> set T) (map (\<lambda>kv. (u, snd (fst kv))) (out_edges G u))"
        by (simp add: filter_map comp_def)
      moreover have "map (\<lambda>kv. (u, snd (fst kv))) (out_edges G u) = map fst (out_edges G u)"
        by (simp add: out_edges_def)
      ultimately show ?thesis by simp
    qed
    have fst_here: "fst ` set ?here \<subseteq> {u}" by auto
    from eq here rest d_here fst_here show ?case
      by (auto simp: crossing_def)
  qed
  with that show thesis by blast
qed


text \<open>
  What is used of \<^verbatim>\<open>networkx.minimum_cut\<close>: the reachable set it returns is made of nodes
  of the graph. Then: a window that degrades, a window that was solved, and the windows of a
  record list.
\<close>

definition cut_of_nodes :: "externals \<Rightarrow> bool" where
  "cut_of_nodes ext \<longleftrightarrow>
     (\<forall>G s t a ct. minimum_cut ext G s t a = Inr ct \<longrightarrow> (\<forall>u \<in> set (fst (snd ct)). has_node G u))"

definition degraded ::
  "externals \<Rightarrow> LogRecord list \<Rightarrow> string \<Rightarrow> string \<Rightarrow> string \<Rightarrow> datetime \<Rightarrow> datetime \<Rightarrow> bool" where
  "degraded ext records source sink capacity_attr s e =
     (selection ext records s e = [] \<or>
      (case build_graph ext (selection ext records s e) of
         Inl x \<Rightarrow> False
       | Inr G \<Rightarrow> \<not> has_node G source \<or> \<not> has_node G sink
                 \<or> isl (maximum_flow ext G source sink capacity_attr)
                 \<or> isl (minimum_cut ext G source sink capacity_attr)))"

definition solved ::
  "externals \<Rightarrow> LogRecord list \<Rightarrow> string \<Rightarrow> string \<Rightarrow> string \<Rightarrow> window_result \<Rightarrow> bool" where
  "solved ext records source sink capacity_attr r =
     (case build_graph ext (selection ext records (start r) (end_dt r)) of
        Inl x \<Rightarrow> False
      | Inr G \<Rightarrow>
         (case maximum_flow ext G source sink capacity_attr of
            Inl x \<Rightarrow> False
          | Inr fl \<Rightarrow>
             (case minimum_cut ext G source sink capacity_attr of
                Inl x \<Rightarrow> False
              | Inr ct \<Rightarrow> flow r = fst fl \<and> cut_value r = Some (fst ct)
                          \<and> set (min_cut r) = crossing G (fst (snd ct)) (snd (snd ct)))))"

definition windows_of ::
  "externals \<Rightarrow> LogRecord list \<Rightarrow> int \<Rightarrow> int \<Rightarrow> (datetime \<times> datetime) list" where
  "windows_of ext records window_seconds step_seconds =
     (case py_min (parsed ext records) of
        Inl x \<Rightarrow> []
      | Inr first \<Rightarrow>
         (case py_max (parsed ext records) of
            Inl x \<Rightarrow> []
          | Inr final \<Rightarrow> expected_windows first final window_seconds step_seconds))"

definition windows_fit :: "externals \<Rightarrow> LogRecord list \<Rightarrow> int \<Rightarrow> int \<Rightarrow> bool" where
  \<comment> \<open>neither \<^verbatim>\<open>timedelta\<close> nor a window end nor an advance is out of range\<close>
  "windows_fit ext records window_seconds step_seconds \<longleftrightarrow>
     (case timedelta window_seconds of
        Inl x \<Rightarrow> False
      | Inr wd \<Rightarrow>
         (case timedelta step_seconds of
            Inl x \<Rightarrow> False
          | Inr sd \<Rightarrow>
             (case py_min (parsed ext records) of
                Inl x \<Rightarrow> True
              | Inr first \<Rightarrow>
                 (case py_max (parsed ext records) of
                    Inl x \<Rightarrow> True
                  | Inr final \<Rightarrow> fits first final wd sd))))"

lemma analyze_window_bounds:
  "analyze_window ext rs source sink attr a b = Inr r \<Longrightarrow> start r = a \<and> end_dt r = b"
  by (auto simp: analyze_window_def sentinel_def split: sum.splits if_splits)

lemma analyze_window_outcome:
  assumes "all_parse ext rs" and "\<forall>t \<in> set (parsed ext rs). aware t = aware a"
    and "aware b = aware a" and "cut_of_nodes ext"
  shows "\<exists>r. analyze_window ext rs source sink attr a b = Inr r
            \<and> (if degraded ext rs source sink attr a b then r = sentinel a b
                else solved ext rs source sink attr r)"
proof -
  let ?sel = "selection ext rs a b"
  have sel: "records_in_window ext rs a b = Inr ?sel"
    by (rule records_in_window_selection[OF assms(1,2,3)])
  have "uniform (parsed ext rs)"
    unfolding uniform_iff using assms(2) by (metis (full_types))
  then have "uniform (parsed ext ?sel)"
    by (rule uniform_subset) (rule parsed_selection_subset)
  then obtain G where G: "build_graph ext ?sel = Inr G"
    by (rule build_graph_returns)
  show ?thesis
  proof (cases "?sel = [] \<or> \<not> has_node G source \<or> \<not> has_node G sink")
    case True
    then have "analyze_window ext rs source sink attr a b = Inr (sentinel a b)"
      by (auto simp: analyze_window_def sel G)
    moreover from True have "degraded ext rs source sink attr a b"
      by (auto simp: degraded_def G)
    ultimately show ?thesis by simp
  next
    case present: False
    show ?thesis
    proof (cases "maximum_flow ext G source sink attr")
      case (Inl x)
      with present have "analyze_window ext rs source sink attr a b = Inr (sentinel a b)"
        by (simp add: analyze_window_def sel G GraphAnalyzer_max_flow_def)
      moreover from Inl have "degraded ext rs source sink attr a b"
        by (simp add: degraded_def G)
      ultimately show ?thesis by simp
    next
      case fl: (Inr fl)
      show ?thesis
      proof (cases "minimum_cut ext G source sink attr")
        case (Inl x)
        with present fl have "analyze_window ext rs source sink attr a b = Inr (sentinel a b)"
          by (simp add: analyze_window_def sel G GraphAnalyzer_max_flow_def
                GraphAnalyzer_min_cut_def)
        moreover from Inl have "degraded ext rs source sink attr a b"
          by (simp add: degraded_def G)
        ultimately show ?thesis by simp
      next
        case ct: (Inr ct)
        with assms(4) have "\<forall>u \<in> set (fst (snd ct)). has_node G u"
          unfolding cut_of_nodes_def by blast
        then obtain es where es: "cut_edges G (fst (snd ct)) (snd (snd ct)) = Inr es"
          and crossing: "set es = crossing G (fst (snd ct)) (snd (snd ct))"
          by (rule cut_edges_Inr)
        let ?r = "\<lparr>start = a, end_dt = b, flow = fst fl, min_cut = es,
                   cut_value = Some (fst ct)\<rparr>"
        from present fl ct es have "analyze_window ext rs source sink attr a b = Inr ?r"
          by (simp add: analyze_window_def sel G GraphAnalyzer_max_flow_def
                GraphAnalyzer_min_cut_def)
        moreover from present fl ct have "\<not> degraded ext rs source sink attr a b"
          by (simp add: degraded_def G)
        moreover from fl ct crossing have "solved ext rs source sink attr ?r"
          by (simp add: solved_def G)
        ultimately show ?thesis by simp
      qed
    qed
  qed
qed

lemma run_bodies_all:
  assumes "\<forall>win \<in> set wins. \<exists>r. body (fst win) (snd win) = Inr r \<and> P r"
  shows "\<exists>rs. run_bodies body wins acc = Inr (acc @ rs)
            \<and> list_all2 (\<lambda>win r. body (fst win) (snd win) = Inr r) wins rs \<and> list_all P rs"
  using assms
proof (induction wins arbitrary: acc)
  case Nil
  show ?case by simp
next
  case (Cons win wins)
  from Cons.prems obtain r where r: "body (fst win) (snd win) = Inr r" "P r" by auto
  from Cons.prems have "\<forall>win \<in> set wins. \<exists>r. body (fst win) (snd win) = Inr r \<and> P r" by simp
  from Cons.IH[OF this, of "acc @ [r]"] obtain rs where
    "run_bodies body wins (acc @ [r]) = Inr (acc @ [r] @ rs)"
    "list_all2 (\<lambda>win r. body (fst win) (snd win) = Inr r) wins rs" "list_all P rs" by auto
  with r show ?case
    by (intro exI[of _ "r # rs"]) simp
qed

lemma run_bodies_Inr:
  assumes "run_bodies body wins acc = Inr out"
  shows "\<exists>rs. out = acc @ rs \<and> list_all2 (\<lambda>win r. body (fst win) (snd win) = Inr r) wins rs"
  using assms
proof (induction wins arbitrary: acc)
  case Nil
  then show ?case by simp
next
  case (Cons win wins)
  from Cons.prems obtain r where r: "body (fst win) (snd win) = Inr r"
    and rest: "run_bodies body wins (acc @ [r]) = Inr out"
    by (auto split: sum.splits)
  from Cons.IH[OF rest] obtain rs where "out = (acc @ [r]) @ rs"
    "list_all2 (\<lambda>win r. body (fst win) (snd win) = Inr r) wins rs" by blast
  with r show ?case
    by (intro exI[of _ "r # rs"]) simp
qed

lemma expected_windows_aware:
  "win \<in> set (expected_windows c e w s) \<Longrightarrow> aware (fst win) = aware c \<and> aware (snd win) = aware c"
  by (auto simp: expected_windows_def)


lemma windows_of_cases:
  assumes "win \<in> set (windows_of ext rs w s)"
  obtains first final where "py_min (parsed ext rs) = Inr first"
    and "py_max (parsed ext rs) = Inr final"
    and "windows_of ext rs w s = expected_windows first final w s"
  using assms
  by (cases "py_min (parsed ext rs)"; cases "py_max (parsed ext rs)")
     (simp_all add: windows_of_def)

lemma windows_of_aware:
  assumes "win \<in> set (windows_of ext rs w s)"
  shows "(\<forall>t \<in> set (parsed ext rs). aware t = aware (fst win)) \<and> aware (snd win) = aware (fst win)"
proof -
  from assms obtain first final where mn: "py_min (parsed ext rs) = Inr first"
    and eq: "windows_of ext rs w s = expected_windows first final w s"
    by (rule windows_of_cases)
  from assms eq have "win \<in> set (expected_windows first final w s)" by simp
  from expected_windows_aware[OF this] have "aware (fst win) = aware first"
    "aware (snd win) = aware first" by blast+
  moreover from py_min_Inr[OF mn] have "\<forall>t \<in> set (parsed ext rs). aware t = aware first"
    by blast
  ultimately show ?thesis by simp
qed

lemma analyze_time_windows_run:
  assumes "all_parse ext rs" and "uniform (parsed ext rs)" and "0 < s"
    and "windows_fit ext rs w s"
  shows "analyze_time_windows ext rs source sink w s attr =
           Some (run_bodies (analyze_window ext rs source sink attr) (windows_of ext rs w s) [])"
proof (cases "rs = []")
  case True
  then show ?thesis
    by (simp add: analyze_time_windows_def sliding_windows_def windows_of_def py_min_def
          for_windows.simps[of _ _ _ Finished] next_window_def)
next
  case False
  from sliding_windows_Loop[OF False assms(1,2)] obtain first final where
    g: "sliding_windows ext rs = Inr (Loop first final)"
    and mn: "py_min (parsed ext rs) = Inr first" and mx: "py_max (parsed ext rs) = Inr final"
    by blast
  from all_parse_nonempty[OF assms(1) False] have "hd (parsed ext rs) \<in> set (parsed ext rs)"
    by simp
  with py_min_Inr[OF mn] py_max_Inr[OF mx]
  have "aware (hd (parsed ext rs)) = aware first" "aware (hd (parsed ext rs)) = aware final"
    by blast+
  then have aw: "aware first = aware final" by simp
  from assms(4) mn mx obtain wd sd where tw: "timedelta w = Inr wd" and ts: "timedelta s = Inr sd"
    and fit: "fits first final wd sd"
    by (auto simp: windows_fit_def split: sum.splits)
  then have "usec first \<le> usec final \<longrightarrow> fits first final wd sd" by simp
  from for_windows_result[OF assms(3) tw ts aw this] g mn mx show ?thesis
    by (simp add: analyze_time_windows_def windows_of_def)
qed

lemma bounds_of_results:
  assumes "list_all2 (\<lambda>win r. analyze_window ext rs source sink attr (fst win) (snd win) = Inr r)
             wins results"
  shows "map (\<lambda>r. (start r, end_dt r)) results = wins"
  using assms
  by (induction wins results rule: list_all2_induct) (auto dest: analyze_window_bounds)

lemma analyze_time_windows_outcome:
  assumes "all_parse ext records" and "uniform (parsed ext records)" and "0 < step_seconds"
    and "cut_of_nodes ext" and "windows_fit ext records window_seconds step_seconds"
  shows "\<exists>results.
           analyze_time_windows ext records source sink window_seconds step_seconds capacity_attr
             = Some (Inr results)
         \<and> map (\<lambda>r. (start r, end_dt r)) results
             = windows_of ext records window_seconds step_seconds
         \<and> (\<forall>r \<in> set results.
               if degraded ext records source sink capacity_attr (start r) (end_dt r)
               then r = sentinel (start r) (end_dt r)
               else solved ext records source sink capacity_attr r)"
proof -
  let ?body = "analyze_window ext records source sink capacity_attr"
  let ?wins = "windows_of ext records window_seconds step_seconds"
  let ?P = "\<lambda>r. if degraded ext records source sink capacity_attr (start r) (end_dt r)
               then r = sentinel (start r) (end_dt r)
               else solved ext records source sink capacity_attr r"
  have "\<exists>r. ?body (fst win) (snd win) = Inr r \<and> ?P r" if "win \<in> set ?wins" for win
  proof -
    from windows_of_aware[OF that]
    have "\<forall>t \<in> set (parsed ext records). aware t = aware (fst win)"
      and "aware (snd win) = aware (fst win)" by blast+
    from analyze_window_outcome[OF assms(1) this assms(4), of source sink capacity_attr]
    obtain r where r: "?body (fst win) (snd win) = Inr r"
      and o: "if degraded ext records source sink capacity_attr (fst win) (snd win)
              then r = sentinel (fst win) (snd win)
              else solved ext records source sink capacity_attr r" by blast
    from analyze_window_bounds[OF r] have "start r = fst win" "end_dt r = snd win" by simp_all
    with o have "?P r" by (simp only:)
    with r show ?thesis by blast
  qed
  then have "\<forall>win \<in> set ?wins. \<exists>r. ?body (fst win) (snd win) = Inr r \<and> ?P r" by blast
  from run_bodies_all[OF this, of "[]"] obtain results where
    run: "run_bodies ?body ?wins [] = Inr results"
    and all2: "list_all2 (\<lambda>win r. ?body (fst win) (snd win) = Inr r) ?wins results"
    and P: "list_all ?P results" by auto
  from run have "analyze_time_windows ext records source sink window_seconds step_seconds
      capacity_attr = Some (Inr results)"
    by (simp add: analyze_time_windows_run[OF assms(1,2,3,5)])
  moreover from all2 have "map (\<lambda>r. (start r, end_dt r)) results = ?wins"
    by (rule bounds_of_results)
  moreover from P have "\<forall>r \<in> set results. ?P r"
    by (simp add: list_all_iff)
  ultimately show ?thesis by blast
qed


text \<open>A log whose timestamps all parse, and the results of its five windows.\<close>

definition window_log :: "LogRecord list" where
  "window_log =
     [call ''2024-01-01T00:00:00Z'' ''A'' ''B'' 10,
      call ''2024-01-01T00:00:01Z'' ''B'' ''C'' 20,
      call ''2024-01-01T00:00:01Z'' ''B'' ''C'' 40,
      call ''2024-01-01T00:02:00Z'' ''A'' ''B'' 10]"

lemma parsed_window_log:
  "parsed sample_ext window_log =
     [Aware 1704067200000000 0, Aware 1704067201000000 0, Aware 1704067201000000 0,
      Aware 1704067320000000 0]"
  by (simp add: parsed_def window_log_def call_def sample_ext_def sample_iso_def replace_Z_def
        List.map_filter_simps)

lemma windows_of_window_log:
  "windows_of sample_ext window_log 60 30 =
     [(Aware 1704067200000000 0, Aware 1704067260000000 0),
      (Aware 1704067230000000 0, Aware 1704067290000000 0),
      (Aware 1704067260000000 0, Aware 1704067320000000 0),
      (Aware 1704067290000000 0, Aware 1704067350000000 0),
      (Aware 1704067320000000 0, Aware 1704067380000000 0)]"
  by (simp add: windows_of_def parsed_window_log py_min_def py_max_def dt_lt_def
        expected_windows_def window_count_def usecs_def upt_rec)


lemmas eval_defs =
  analyze_window_def window_log_def call_def sample_ext_def sample_iso_def replace_Z_def
  parse_iso_z_def dt_le_def dt_lt_def dt_sub_def sentinel_def
  build_graph_def observation_span_def time_window_def py_max_def py_min_def total_seconds_def
  has_edge_def has_node_def add_edge_def add_node_def empty_graph_def
  edge_pass_def node_pass_def node_load_def float_sum_def derive_edge_def in_edges_def out_edges_def
  GraphAnalyzer_max_flow_def GraphAnalyzer_min_cut_def sample_maximum_flow_def
  sample_minimum_cut_def successors_def Let_def

lemma window0:
  "analyze_window sample_ext window_log ''A'' ''C'' ''capacity''
     (Aware 1704067200000000 0) (Aware 1704067260000000 0)
   = Inr \<lparr>start = Aware 1704067200000000 0, end_dt = Aware 1704067260000000 0,
         flow = 1, min_cut = [(''A'', ''B'')], cut_value = Some 1\<rparr>"
  by (simp add: eval_defs)

lemma window1:
  "analyze_window sample_ext window_log ''A'' ''C'' ''capacity''
     (Aware 1704067230000000 0) (Aware 1704067290000000 0)
   = Inr (sentinel (Aware 1704067230000000 0) (Aware 1704067290000000 0))"
  by (simp add: eval_defs)

lemma window2:
  "analyze_window sample_ext window_log ''A'' ''C'' ''capacity''
     (Aware 1704067260000000 0) (Aware 1704067320000000 0)
   = Inr (sentinel (Aware 1704067260000000 0) (Aware 1704067320000000 0))"
  by (simp add: eval_defs)


lemma cut_of_nodes_sample: "cut_of_nodes sample_ext"
  by (auto simp: cut_of_nodes_def sample_ext_def sample_minimum_cut_def has_node_def
        split: if_splits)


definition stuck ::
  "(datetime \<Rightarrow> datetime \<Rightarrow> error + 'a) \<Rightarrow> int \<Rightarrow> int \<Rightarrow> window_gen \<Rightarrow> bool" where
  \<comment> \<open>a generator with step 0 at a window in range that the loop body accepts\<close>
  "stuck body w s g \<longleftrightarrow>
     s = 0 \<and> (\<exists>c e wd r. (g = Loop c e \<or> g = Suspended c e) \<and> dt_le c e = Inr True
                \<and> timedelta w = Inr wd \<and> dt_add c wd = Inr (shift c wd) \<and> dt_add c 0 = Inr c
                \<and> body c (shift c wd) = Inr r)"

lemma for_windows_stuck:
  assumes "for_windows body w s g acc = Some y"
  shows "\<not> stuck body w s g"
proof (rule for_windows.raw_induct[where P = "\<lambda>body w s g acc y. \<not> stuck body w s g",
         OF _ assms], goal_cases)
  case (1 loop body w s g acc y)
  show ?case
  proof
    assume "stuck body w s g"
    then obtain c e wd r where s: "s = 0" and g: "g = Loop c e \<or> g = Suspended c e"
      and le: "dt_le c e = Inr True" and wd: "timedelta w = Inr wd"
      and we: "dt_add c wd = Inr (shift c wd)" and same: "dt_add c 0 = Inr c"
      and r: "body c (shift c wd) = Inr r"
      unfolding stuck_def by blast
    have zero: "timedelta 0 = Inr 0" by (simp add: timedelta_def usecs_def)
    have head: "loop_head w c e = Inr (Some ((c, shift c wd), Suspended c e))"
      using le wd we by (simp add: loop_head_def)
    from g zero same head
    have "next_window w 0 g = Inr (Some ((c, shift c wd), Suspended c e))"
      by (auto simp: next_window_def)
    with 1(2) s r have step: "loop body w s (Suspended c e) (acc @ [r]) = Some y" by simp
    from s le wd we same r have "stuck body w s (Suspended c e)"
      unfolding stuck_def by blast
    with 1(1)[OF step] show False by blast
  qed
qed

lemma for_windows_never_returns:
  assumes "stuck body w s g"
  shows "for_windows body w s g acc = None"
proof (cases "for_windows body w s g acc")
  case None
  then show ?thesis .
next
  case (Some y)
  from for_windows_stuck[OF Some] assms show ?thesis by blast
qed

text \<open>
  C5, as stated for every step, fails: with step 0 the window never advances and the analysis
  of a non-empty log never returns.
\<close>

theorem zero_step_counterexample:
  "analyze_time_windows sample_ext window_log ''A'' ''C'' 60 0 ''capacity'' = None"
proof -
  let ?c = "Aware 1704067200000000 0" and ?e = "Aware 1704067320000000 0"
  let ?body = "analyze_window sample_ext window_log ''A'' ''C'' ''capacity''"
  have g: "sliding_windows sample_ext window_log = Inr (Loop ?c ?e)"
    by (simp add: sliding_windows_def parse_all_def window_log_def call_def sample_ext_def
          sample_iso_def replace_Z_def parse_iso_z_def py_min_def py_max_def dt_lt_def)
  have le: "dt_le ?c ?e = Inr True"
    by (simp add: dt_le_def)
  have wd: "timedelta 60 = Inr 60000000"
    by (simp add: timedelta_def usecs_def)
  have we: "dt_add ?c 60000000 = Inr (shift ?c 60000000)" and same: "dt_add ?c 0 = Inr ?c"
    by (simp_all add: dt_add_def datetime_min_def datetime_max_def)
  have "\<exists>r. ?body ?c (shift ?c 60000000) = Inr r"
    using window0 by simp
  with le wd we same have "stuck ?body 60 0 (Loop ?c ?e)"
    unfolding stuck_def by blast
  from for_windows_never_returns[OF this] g show ?thesis
    by (simp add: analyze_time_windows_def)
qed

definition parseable :: "externals \<Rightarrow> LogRecord list \<Rightarrow> LogRecord list" where
  "parseable ext records =
     filter (\<lambda>r. fromisoformat ext (replace_Z (timestamp r)) \<noteq> None) records"

text \<open>
  C3. The claim is that the analysis never raises and that a failure costs one window only.
  On the sample log, whose third record has a timestamp that does not parse, the analysis
  raises \<^verbatim>\<open>ValueError\<close> before any window is analysed (\<^verbatim>\<open>sliding_windows\<close>, line 22),
  while \<^verbatim>\<open>build_graph\<close> accepts the same log, and the analysis of the log without that
  record returns a result for each of its five windows.
\<close>

theorem unparsed_timestamp_raises:
  "analyze_time_windows sample_ext sample_log ''A'' ''C'' 60 30 ''capacity'' = Some (Inl ValueError)
   \<and> build_graph sample_ext sample_log = Inr sample_graph
   \<and> parseable sample_ext sample_log = [sample_log ! 0, sample_log ! 1, sample_log ! 3]
   \<and> (\<exists>results.
         analyze_time_windows sample_ext (parseable sample_ext sample_log) ''A'' ''C'' 60 30
           ''capacity'' = Some (Inr results)
         \<and> length results = 5)"
proof -
  have raises: "analyze_time_windows sample_ext sample_log ''A'' ''C'' 60 30 ''capacity''
      = Some (Inl ValueError)"
    by (simp add: analyze_time_windows_def sliding_windows_def parse_all_def sample_log_def
          call_def sample_ext_def sample_iso_def replace_Z_def parse_iso_z_def)
  let ?log = "parseable sample_ext sample_log"
  have log: "?log = [call ''2024-01-01T00:00:00Z'' ''A'' ''B'' 10,
      call ''2024-01-01T00:00:01Z'' ''B'' ''C'' 20, call ''2024-01-01T00:02:00Z'' ''A'' ''B'' 10]"
    by (simp add: parseable_def sample_log_def call_def sample_ext_def sample_iso_def
          replace_Z_def)
  have kept: "?log = [sample_log ! 0, sample_log ! 1, sample_log ! 3]"
    unfolding log by (simp add: sample_log_def)
  have parsed3: "parsed sample_ext ?log =
      [Aware 1704067200000000 0, Aware 1704067201000000 0, Aware 1704067320000000 0]"
    unfolding log
    by (simp add: parsed_def call_def sample_ext_def sample_iso_def replace_Z_def
          List.map_filter_simps)
  have ap: "all_parse sample_ext ?log"
    unfolding log
    by (simp add: all_parse_def call_def sample_ext_def sample_iso_def replace_Z_def)
  have un: "uniform (parsed sample_ext ?log)"
    by (simp add: parsed3 uniform_def)
  have fit: "windows_fit sample_ext ?log 60 30"
    by (simp add: windows_fit_def parsed3 py_min_def py_max_def dt_lt_def timedelta_def
          usecs_def fits_def datetime_min_def datetime_max_def)
  have pos: "(0::int) < 30" by simp
  have wins: "length (windows_of sample_ext ?log 60 30) = 5"
    by (simp add: windows_of_def parsed3 py_min_def py_max_def dt_lt_def expected_windows_def
          window_count_def usecs_def)
  from analyze_time_windows_outcome[OF ap un pos cut_of_nodes_sample fit,
      of "''A''" "''C''" "''capacity''"]
  obtain results where
    r: "analyze_time_windows sample_ext ?log ''A'' ''C'' 60 30 ''capacity'' = Some (Inr results)"
    and b: "map (\<lambda>r. (start r, end_dt r)) results = windows_of sample_ext ?log 60 30"
    by blast
  from b have "length results = length (windows_of sample_ext ?log 60 30)"
    by (metis length_map)
  with wins have "length results = 5" by simp
  with r have "\<exists>results.
         analyze_time_windows sample_ext ?log ''A'' ''C'' 60 30 ''capacity'' = Some (Inr results)
         \<and> length results = 5" by blast
  with raises kept build_graph_sample show ?thesis by blast
qed


lemma window3:
  "analyze_window sample_ext window_log ''A'' ''C'' ''capacity''
     (Aware 1704067290000000 0) (Aware 1704067350000000 0)
   = Inr (sentinel (Aware 1704067290000000 0) (Aware 1704067350000000 0))"
  by (simp add: eval_defs)

lemma window4:
  "analyze_window sample_ext window_log ''A'' ''C'' ''capacity''
     (Aware 1704067320000000 0) (Aware 1704067380000000 0)
   = Inr (sentinel (Aware 1704067320000000 0) (Aware 1704067380000000 0))"
  by (simp add: eval_defs)

definition window_results :: "window_result list" where
  "window_results =
     [\<lparr>start = Aware 1704067200000000 0, end_dt = Aware 1704067260000000 0,
       flow = 1, min_cut = [(''A'', ''B'')], cut_value = Some 1\<rparr>,
      sentinel (Aware 1704067230000000 0) (Aware 1704067290000000 0),
      sentinel (Aware 1704067260000000 0) (Aware 1704067320000000 0),
      sentinel (Aware 1704067290000000 0) (Aware 1704067350000000 0),
      sentinel (Aware 1704067320000000 0) (Aware 1704067380000000 0)]"

lemma all_parse_window_log: "all_parse sample_ext window_log"
  by (simp add: all_parse_def window_log_def call_def sample_ext_def sample_iso_def replace_Z_def)

lemma uniform_window_log: "uniform (parsed sample_ext window_log)"
  by (simp add: parsed_window_log uniform_def)

lemma windows_fit_window_log: "windows_fit sample_ext window_log 60 30"
  by (simp add: windows_fit_def parsed_window_log py_min_def py_max_def dt_lt_def timedelta_def
        usecs_def fits_def datetime_min_def datetime_max_def)

lemma analyze_window_log:
  "analyze_time_windows sample_ext window_log ''A'' ''C'' 60 30 ''capacity''
     = Some (Inr window_results)"
  by (simp add: analyze_time_windows_run[OF all_parse_window_log uniform_window_log _
          windows_fit_window_log]
        windows_of_window_log window0 window1 window2 window3 window4 window_results_def)

lemma floor_span:
  "\<lfloor>total_seconds a / real_of_int s\<rfloor> = a div usecs s"
proof -
  have "total_seconds a / real_of_int s = real_of_int a / real_of_int (usecs s)"
    by (simp add: total_seconds_def usecs_def mult.commute)
  then show ?thesis
    by (simp only: floor_divide_of_int_eq)
qed

lemma analyze_empty_log:
  "analyze_time_windows ext [] source sink w s attr = Some (Inr [])"
  by (simp add: analyze_time_windows_def sliding_windows_def for_windows.simps[of _ _ _ Finished]
        next_window_def)

lemma windows_of_span:
  assumes "records \<noteq> []" and "all_parse ext records" and "uniform (parsed ext records)"
  obtains first final where "py_min (parsed ext records) = Inr first"
    and "py_max (parsed ext records) = Inr final"
    and "usec final - usec first = span_usec (parsed ext records)"
    and "0 \<le> span_usec (parsed ext records)"
    and "windows_of ext records w s = expected_windows first final w s"
proof -
  from sliding_windows_Loop[OF assms] obtain first final where
    mn: "py_min (parsed ext records) = Inr first" and mx: "py_max (parsed ext records) = Inr final"
    by blast
  from py_min_Inr[OF mn] py_max_Inr[OF mx]
  have "usec final - usec first = span_usec (parsed ext records)"
    by (simp add: span_usec_def)
  moreover from py_min_Inr[OF mn] have "0 \<le> span_usec (parsed ext records)"
    by (simp add: span_usec_nonneg)
  moreover have "windows_of ext records w s = expected_windows first final w s"
    by (simp add: windows_of_def mn mx)
  ultimately show thesis using mn mx that by blast
qed

lemma div_bounds:
  fixes D S :: int
  assumes "0 < S"
  shows "(D div S) * S \<le> D \<and> D < (D div S + 1) * S"
proof -
  have e: "D = (D div S) * S + D mod S" by simp
  from assms have "0 \<le> D mod S" "D mod S < S" by simp_all
  with e have "(D div S) * S \<le> D" "D < (D div S) * S + S" by linarith+
  then show ?thesis by (simp add: algebra_simps)
qed

lemma sliding_windows_bounds:
  assumes "sliding_windows ext records = Inr g" and "records \<noteq> []"
  obtains first final where "g = Loop first final" and "usec first \<le> usec final"
    and "aware first = aware final"
proof -
  from assms obtain tms first final where mn: "py_min tms = Inr first"
    and mx: "py_max tms = Inr final" and g: "g = Loop first final"
    by (auto simp: sliding_windows_def split: sum.splits)
  from py_min_Inr[OF mn] py_max_Inr[OF mx]
  have ne: "tms \<noteq> []" and lo: "usec first = Min (usec ` set tms)"
    and hi: "usec final = Max (usec ` set tms)"
    and a1: "\<forall>t \<in> set tms. aware t = aware first" and a2: "\<forall>t \<in> set tms. aware t = aware final"
    by blast+
  from ne have h: "hd tms \<in> set tms" by simp
  then have "Min (usec ` set tms) \<le> usec (hd tms)" "usec (hd tms) \<le> Max (usec ` set tms)"
    by simp_all
  with lo hi have le: "usec first \<le> usec final" by linarith
  from h a1 a2 have "aware (hd tms) = aware first" "aware (hd tms) = aware final" by blast+
  then have "aware first = aware final" by simp
  with g le that show thesis by blast
qed

lemma negative_step_raises:
  assumes "s < 0"
  shows "usec c \<le> usec e \<Longrightarrow> aware c = aware e
           \<Longrightarrow> \<exists>x. for_windows body w s (Loop c e) acc = Some (Inl x)"
proof (induction "nat (wall c - datetime_min)" arbitrary: c acc rule: less_induct)
  case less
  from less.prems have le: "dt_le c e = Inr True" by (simp add: dt_le_def)
  show ?case
  proof (cases "timedelta w")
    case (Inl x)
    then have "for_windows body w s (Loop c e) acc = Some (Inl x)"
      by (subst for_windows.simps) (simp add: next_window_def loop_head_def le)
    then show ?thesis by blast
  next
    case wd: (Inr wd)
    show ?thesis
    proof (cases "dt_add c wd")
      case (Inl x)
      then have "for_windows body w s (Loop c e) acc = Some (Inl x)"
        by (subst for_windows.simps) (simp add: next_window_def loop_head_def le wd)
      then show ?thesis by blast
    next
      case we: (Inr we)
      have head: "next_window w s (Loop c e) = Inr (Some ((c, we), Suspended c e))"
        by (simp add: next_window_def loop_head_def le wd we)
      show ?thesis
      proof (cases "body c we")
        case (Inl x)
        then have "for_windows body w s (Loop c e) acc = Some (Inl x)"
          by (subst for_windows.simps) (simp add: head)
        then show ?thesis by blast
      next
        case r: (Inr r)
        have step: "for_windows body w s (Loop c e) acc
                      = for_windows body w s (Suspended c e) (acc @ [r])"
          by (subst for_windows.simps) (simp add: head r)
        show ?thesis
        proof (cases "timedelta s")
          case (Inl x)
          then have "for_windows body w s (Suspended c e) (acc @ [r]) = Some (Inl x)"
            by (subst for_windows.simps) (simp add: next_window_def)
          with step show ?thesis by simp
        next
          case sd: (Inr sd)
          from timedelta_Inr[OF sd] assms have neg: "sd < 0" by (simp add: usecs_def)
          show ?thesis
          proof (cases "dt_add c sd")
            case (Inl x)
            then have "for_windows body w s (Suspended c e) (acc @ [r]) = Some (Inl x)"
              by (subst for_windows.simps) (simp add: next_window_def sd)
            with step show ?thesis by simp
          next
            case c': (Inr c')
            then have eq: "c' = shift c sd" and lo: "datetime_min \<le> wall c + sd"
              by (auto simp: dt_add_def split: if_splits)
            from for_windows_resume[OF sd c']
            have resume: "for_windows body w s (Suspended c e) (acc @ [r])
                            = for_windows body w s (Loop c' e) (acc @ [r])" .
            from eq lo neg have less: "nat (wall c' - datetime_min) < nat (wall c - datetime_min)"
              by simp
            from eq neg less.prems have "usec c' \<le> usec e" "aware c' = aware e" by simp_all
            from less.hyps[OF less this, of "acc @ [r]"] step resume show ?thesis by simp
          qed
        qed
      qed
    qed
  qed
qed

lemma analyze_negative_step:
  assumes "records \<noteq> []" and "s < 0"
  shows "\<exists>x. analyze_time_windows ext records source sink w s attr = Some (Inl x)"
proof (cases "sliding_windows ext records")
  case (Inl x)
  then show ?thesis by (simp add: analyze_time_windows_def)
next
  case (Inr g)
  from sliding_windows_bounds[OF Inr assms(1)] obtain first final where
    "g = Loop first final" "usec first \<le> usec final" "aware first = aware final" by blast
  with negative_step_raises[OF assms(2), of first final] Inr show ?thesis
    by (simp add: analyze_time_windows_def)
qed

lemma analyze_zero_step:
  assumes "records \<noteq> []" and "all_parse ext records" and "uniform (parsed ext records)"
    and "cut_of_nodes ext" and "windows_fit ext records w 0"
  shows "analyze_time_windows ext records source sink w 0 attr = None"
proof -
  let ?body = "analyze_window ext records source sink attr"
  from sliding_windows_Loop[OF assms(1,2,3)] obtain first final where
    g: "sliding_windows ext records = Inr (Loop first final)"
    and mn: "py_min (parsed ext records) = Inr first" and mx: "py_max (parsed ext records) = Inr final"
    by blast
  from sliding_windows_bounds[OF g assms(1)] have "usec first \<le> usec final"
    "aware first = aware final" by auto
  then have le: "dt_le first final = Inr True" by (simp add: dt_le_def)
  have zero: "timedelta 0 = Inr 0" by (simp add: timedelta_def usecs_def)
  from assms(5) mn mx zero obtain wd where wd: "timedelta w = Inr wd"
    and fit: "fits first final wd 0"
    by (auto simp: windows_fit_def split: sum.splits)
  from fit have we: "dt_add first wd = Inr (shift first wd)" and same: "dt_add first 0 = Inr first"
    by (simp_all add: fits_def dt_add_def)
  from py_min_Inr[OF mn] have aw: "\<forall>t \<in> set (parsed ext records). aware t = aware first"
    by blast
  have "aware (shift first wd) = aware first" by simp
  from analyze_window_outcome[OF assms(2) aw this assms(4), of source sink attr]
  obtain r where "?body first (shift first wd) = Inr r" by blast
  with le wd we same have "stuck ?body w 0 (Loop first final)"
    unfolding stuck_def by blast
  from for_windows_never_returns[OF this] g show ?thesis
    by (simp add: analyze_time_windows_def)
qed

text \<open>
  C5, amended. An empty record list gives no window. For a non-empty list whose timestamps all
  parse (all naive or all aware) and span T seconds, a step S of at least one second, and a
  window and a step with which no window end and no advanced start leaves the range of
  dates, the windows are those starting at the earliest timestamp plus k times S for k from 0
  to floor (T / S), each ending window_seconds later: floor (T / S) + 1 windows, the last
  start being at most the latest timestamp and the next one beyond it. The analysis ends,
  its results are those of exactly these windows, and it returns them when the library's
  minimum cut names nodes of the graph. With the step 0 the analysis of such a list never
  returns, and with a negative step the analysis of a non-empty list raises.
\<close>

theorem sliding_window_count:
  "analyze_time_windows ext [] source sink window_seconds step_seconds capacity_attr = Some (Inr [])
   \<and> (records \<noteq> [] \<and> all_parse ext records \<and> uniform (parsed ext records) \<and> 0 < step_seconds
       \<and> windows_fit ext records window_seconds step_seconds
       \<longrightarrow>
       (\<exists>first final out.
           py_min (parsed ext records) = Inr first \<and> py_max (parsed ext records) = Inr final
         \<and> usec final - usec first = span_usec (parsed ext records)
         \<and> windows_of ext records window_seconds step_seconds
             = map (\<lambda>k. (shift first (usecs (int k * step_seconds)),
                         shift first (usecs (int k * step_seconds + window_seconds))))
                 [0 ..< nat \<lfloor>total_seconds (span_usec (parsed ext records))
                              / real_of_int step_seconds\<rfloor> + 1]
         \<and> usec first + usecs (\<lfloor>total_seconds (span_usec (parsed ext records))
                              / real_of_int step_seconds\<rfloor> * step_seconds) \<le> usec final
         \<and> usec final < usec first + usecs ((\<lfloor>total_seconds (span_usec (parsed ext records))
                              / real_of_int step_seconds\<rfloor> + 1) * step_seconds)
         \<and> analyze_time_windows ext records source sink window_seconds step_seconds capacity_attr
             = Some out
         \<and> (\<forall>results. out = Inr results \<longrightarrow>
               map (\<lambda>r. (start r, end_dt r)) results
                 = windows_of ext records window_seconds step_seconds)
         \<and> (cut_of_nodes ext \<longrightarrow>
               (\<exists>results. out = Inr results
                 \<and> length results = nat \<lfloor>total_seconds (span_usec (parsed ext records))
                              / real_of_int step_seconds\<rfloor> + 1))))
   \<and> (records \<noteq> [] \<and> all_parse ext records \<and> uniform (parsed ext records) \<and> cut_of_nodes ext
       \<and> windows_fit ext records window_seconds 0
       \<longrightarrow> analyze_time_windows ext records source sink window_seconds 0 capacity_attr = None)
   \<and> (records \<noteq> [] \<and> step_seconds < 0
       \<longrightarrow> (\<exists>x. analyze_time_windows ext records source sink window_seconds step_seconds
                  capacity_attr = Some (Inl x)))"
proof (intro conjI impI)
  show "analyze_time_windows ext [] source sink window_seconds step_seconds capacity_attr
          = Some (Inr [])"
    by (rule analyze_empty_log)
next
  assume h: "records \<noteq> [] \<and> all_parse ext records \<and> uniform (parsed ext records)
             \<and> 0 < step_seconds \<and> windows_fit ext records window_seconds step_seconds"
  then have ne: "records \<noteq> []" and ap: "all_parse ext records"
    and un: "uniform (parsed ext records)" and pos: "0 < step_seconds"
    and fit: "windows_fit ext records window_seconds step_seconds" by blast+
  let ?D = "span_usec (parsed ext records)"
  let ?S = "usecs step_seconds"
  let ?q = "\<lfloor>total_seconds ?D / real_of_int step_seconds\<rfloor>"
  let ?wins = "windows_of ext records window_seconds step_seconds"
  let ?body = "analyze_window ext records source sink capacity_attr"
  from windows_of_span[OF ne ap un, of window_seconds step_seconds] obtain first final where
    mn: "py_min (parsed ext records) = Inr first" and mx: "py_max (parsed ext records) = Inr final"
    and D: "usec final - usec first = ?D" and D0: "0 \<le> ?D"
    and wins: "?wins = expected_windows first final window_seconds step_seconds"
    by blast
  from pos have S: "0 < ?S" by (simp add: usecs_pos)
  have q: "?q = ?D div ?S" by (rule floor_span)
  from D0 S have q0: "0 \<le> ?q" by (simp add: q pos_imp_zdiv_nonneg_iff)
  from D D0 have cnt: "window_count first final step_seconds = nat ?q + 1"
    by (simp add: window_count_def q)
  have list: "?wins = map (\<lambda>k. (shift first (usecs (int k * step_seconds)),
                         shift first (usecs (int k * step_seconds + window_seconds))))
                 [0 ..< nat ?q + 1]"
    by (simp only: wins expected_windows_def cnt)
  from div_bounds[OF S, of ?D] have "?q * ?S \<le> ?D" "?D < (?q + 1) * ?S"
    unfolding q by blast+
  then have lo: "usec first + usecs (?q * step_seconds) \<le> usec final"
    and hi: "usec final < usec first + usecs ((?q + 1) * step_seconds)"
    using D by (simp_all add: usecs_def algebra_simps)
  have run: "analyze_time_windows ext records source sink window_seconds step_seconds
               capacity_attr = Some (run_bodies ?body ?wins [])"
    by (rule analyze_time_windows_run[OF ap un pos fit])
  have res: "\<forall>results. run_bodies ?body ?wins [] = Inr results \<longrightarrow>
               map (\<lambda>r. (start r, end_dt r)) results = ?wins"
  proof (intro allI impI)
    fix results assume "run_bodies ?body ?wins [] = Inr results"
    from run_bodies_Inr[OF this] have
      "list_all2 (\<lambda>win r. ?body (fst win) (snd win) = Inr r) ?wins results" by simp
    then show "map (\<lambda>r. (start r, end_dt r)) results = ?wins"
      by (rule bounds_of_results)
  qed
  have ok: "cut_of_nodes ext \<longrightarrow>
               (\<exists>results. run_bodies ?body ?wins [] = Inr results \<and> length results = nat ?q + 1)"
  proof
    assume "cut_of_nodes ext"
    from analyze_time_windows_outcome[OF ap un pos this fit, of source sink capacity_attr]
    obtain results where
      r: "analyze_time_windows ext records source sink window_seconds step_seconds
            capacity_attr = Some (Inr results)"
      and b: "map (\<lambda>r. (start r, end_dt r)) results = ?wins" by blast
    from b have "length results = length ?wins" by (metis length_map)
    also have "\<dots> = nat ?q + 1" by (simp only: list length_map length_upt)
    finally have "length results = nat ?q + 1" .
    with r run show "\<exists>results. run_bodies ?body ?wins [] = Inr results
        \<and> length results = nat ?q + 1" by simp
  qed
  from mn mx D list lo hi run res ok
  show "\<exists>first final out.
           py_min (parsed ext records) = Inr first \<and> py_max (parsed ext records) = Inr final
         \<and> usec final - usec first = ?D
         \<and> ?wins = map (\<lambda>k. (shift first (usecs (int k * step_seconds)),
                         shift first (usecs (int k * step_seconds + window_seconds))))
                 [0 ..< nat ?q + 1]
         \<and> usec first + usecs (?q * step_seconds) \<le> usec final
         \<and> usec final < usec first + usecs ((?q + 1) * step_seconds)
         \<and> analyze_time_windows ext records source sink window_seconds step_seconds capacity_attr
             = Some out
         \<and> (\<forall>results. out = Inr results \<longrightarrow>
               map (\<lambda>r. (start r, end_dt r)) results = ?wins)
         \<and> (cut_of_nodes ext \<longrightarrow>
               (\<exists>results. out = Inr results \<and> length results = nat ?q + 1))"
    by blast
next
  assume "records \<noteq> [] \<and> all_parse ext records \<and> uniform (parsed ext records) \<and> cut_of_nodes ext
          \<and> windows_fit ext records window_seconds 0"
  then show "analyze_time_windows ext records source sink window_seconds 0 capacity_attr = None"
    by (intro analyze_zero_step) blast+
next
  assume "records \<noteq> [] \<and> step_seconds < 0"
  then show "\<exists>x. analyze_time_windows ext records source sink window_seconds step_seconds
                  capacity_attr = Some (Inl x)"
    by (intro analyze_negative_step) blast+
qed


lemma span_window_log: "total_seconds (span_usec (parsed sample_ext window_log)) = 120"
  by (simp add: parsed_window_log span_usec_def total_seconds_def)

text \<open>
  The window log spans 120 seconds; with step 30 it has five windows, with step 0 its
  analysis never returns, and with step -30 it raises.
\<close>

theorem sliding_window_count_witness:
  "window_log \<noteq> [] \<and> all_parse sample_ext window_log \<and> uniform (parsed sample_ext window_log)
   \<and> (0::int) < 30 \<and> windows_fit sample_ext window_log 60 30 \<and> cut_of_nodes sample_ext
   \<and> total_seconds (span_usec (parsed sample_ext window_log)) = 120
   \<and> nat \<lfloor>(120::real) / real_of_int 30\<rfloor> + 1 = 5
   \<and> analyze_time_windows sample_ext window_log ''A'' ''C'' 60 30 ''capacity''
       = Some (Inr window_results)
   \<and> length window_results = 5
   \<and> map (\<lambda>r. (start r, end_dt r)) window_results = windows_of sample_ext window_log 60 30
   \<and> analyze_time_windows sample_ext [] ''A'' ''C'' 60 30 ''capacity'' = Some (Inr [])
   \<and> windows_fit sample_ext window_log 60 0
   \<and> analyze_time_windows sample_ext window_log ''A'' ''C'' 60 0 ''capacity'' = None
   \<and> (- 30 :: int) < 0
   \<and> (\<exists>x. analyze_time_windows sample_ext window_log ''A'' ''C'' 60 (- 30) ''capacity''
            = Some (Inl x))"
proof -
  have ne: "window_log \<noteq> []" by (simp add: window_log_def)
  have fl: "nat \<lfloor>(120::real) / real_of_int 30\<rfloor> + 1 = 5" by simp
  have fit0: "windows_fit sample_ext window_log 60 0"
    by (simp add: windows_fit_def parsed_window_log py_min_def py_max_def dt_lt_def timedelta_def
          usecs_def fits_def datetime_min_def datetime_max_def)
  have neg: "(- 30 :: int) < 0" by simp
  note forward = sliding_window_count[of sample_ext "''A''" "''C''" 60 30 "''capacity''" window_log]
  note backward = sliding_window_count[of sample_ext "''A''" "''C''" 60 "- 30" "''capacity''"
      window_log]
  from forward ne all_parse_window_log uniform_window_log cut_of_nodes_sample fit0
  have never: "analyze_time_windows sample_ext window_log ''A'' ''C'' 60 0 ''capacity'' = None"
    by blast
  from backward ne neg
  have raises: "\<exists>x. analyze_time_windows sample_ext window_log ''A'' ''C'' 60 (- 30) ''capacity''
            = Some (Inl x)" by blast
  from forward have empty: "analyze_time_windows sample_ext [] ''A'' ''C'' 60 30 ''capacity''
      = Some (Inr [])" by blast
  have len: "length window_results = 5" by (simp add: window_results_def)
  have bounds: "map (\<lambda>r. (start r, end_dt r)) window_results = windows_of sample_ext window_log 60 30"
    by (simp add: window_results_def windows_of_window_log sentinel_def)
  have pos: "(0::int) < 30" by simp
  from ne all_parse_window_log uniform_window_log pos windows_fit_window_log cut_of_nodes_sample
    span_window_log fl analyze_window_log len bounds empty fit0 never neg raises
  show ?thesis by blast
qed

text \<open>
  \<^verbatim>\<open>scripts/run_bottleneck_analysis.py\<close>, \<^verbatim>\<open>main\<close>, from the parsed records on (reading
  the log and writing the document are not modelled): the document it writes, without the
  name of the input file.
\<close>

record out_window =
  w_start :: datetime
  w_end :: datetime
  w_flow :: real
  w_cut_value :: real
  w_min_cut :: "(string \<times> string) list"

record out_obj =
  o_source :: string
  o_sink :: string
  o_window :: int
  o_step :: int
  o_capacity_attr :: string
  o_windows :: "out_window list"
  o_aggregated_bottlenecks :: "((string \<times> string) \<times> nat) list"

definition run_bottleneck_analysis_main ::
  "externals \<Rightarrow> LogRecord list \<Rightarrow> string \<Rightarrow> string \<Rightarrow> int \<Rightarrow> int \<Rightarrow> string
     \<Rightarrow> (error + out_obj) option" where
  "run_bottleneck_analysis_main ext records source sink window step capacity_attr =
     (case analyze_time_windows ext records source sink window step capacity_attr of
        None \<Rightarrow> None
      | Some (Inl x) \<Rightarrow> Some (Inl x)
      | Some (Inr results) \<Rightarrow>
          (let agg = aggregate_bottlenecks results 20
           in Some (Inr \<lparr>o_source = source, o_sink = sink, o_window = window, o_step = step,
                 o_capacity_attr = capacity_attr,
                 o_windows = map (\<lambda>w. \<lparr>w_start = start w, w_end = end_dt w, w_flow = flow w,
                     w_cut_value = (case cut_value w of None \<Rightarrow> 0 | Some c \<Rightarrow> c),
                     w_min_cut = min_cut w\<rparr>) results,
                 o_aggregated_bottlenecks = agg\<rparr>)))"

definition services :: "LogRecord list \<Rightarrow> string set" where
  "services records = src_service ` set records \<union> dst_service ` set records"

lemma run_bodies_map:
  assumes "\<forall>win \<in> set wins. body (fst win) (snd win) = Inr (f win)"
  shows "run_bodies body wins acc = Inr (acc @ map f wins)"
  using assms by (induction wins arbitrary: acc) simp_all

lemma analyze_window_absent:
  assumes "all_parse ext rs" and "\<forall>t \<in> set (parsed ext rs). aware t = aware a"
    and "aware b = aware a" and "source \<notin> services rs \<or> sink \<notin> services rs"
  shows "analyze_window ext rs source sink attr a b = Inr (sentinel a b)"
proof -
  let ?sel = "selection ext rs a b"
  have sel: "records_in_window ext rs a b = Inr ?sel"
    by (rule records_in_window_selection[OF assms(1,2,3)])
  have "uniform (parsed ext rs)"
    unfolding uniform_iff using assms(2) by (metis (full_types))
  then have "uniform (parsed ext ?sel)"
    by (rule uniform_subset) (rule parsed_selection_subset)
  then obtain G where G: "build_graph ext ?sel = Inr G"
    by (rule build_graph_returns)
  have "services ?sel \<subseteq> services rs"
    by (auto simp: services_def selection_def)
  with assms(4) build_graph_nodes[OF G] have "\<not> has_node G source \<or> \<not> has_node G sink"
    by (auto simp: services_def)
  then show ?thesis
    by (auto simp: analyze_window_def sel G)
qed

lemma aggregate_sentinels:
  "aggregate_bottlenecks (map (\<lambda>win. sentinel (fst win) (snd win)) wins) k = []"
proof -
  have "fold (\<lambda>w counter. fold bump (min_cut w) counter)
          (map (\<lambda>win. sentinel (fst win) (snd win)) wins) c = c" for c :: "((string \<times> string) \<times> nat) list"
    by (induction wins) (simp_all add: sentinel_def)
  then show ?thesis
    by (simp add: aggregate_bottlenecks_def sorted_reverse_def slice_to_def)
qed

lemma max_loop_Inl: "max_loop m xs = Inl x \<Longrightarrow> x = TypeError"
  by (induction xs arbitrary: m) (auto simp: dt_lt_def split: sum.splits if_splits)

lemma min_loop_Inl: "min_loop m xs = Inl x \<Longrightarrow> x = TypeError"
  by (induction xs arbitrary: m) (auto simp: dt_lt_def split: sum.splits if_splits)

lemma py_max_Inl: "py_max ts = Inl x \<Longrightarrow> x = ValueError \<or> x = TypeError"
  by (auto simp: py_max_def split: list.splits dest: max_loop_Inl)

lemma py_min_Inl: "py_min ts = Inl x \<Longrightarrow> x = ValueError \<or> x = TypeError"
  by (auto simp: py_min_def split: list.splits dest: min_loop_Inl)

lemma time_window_Inl: "time_window ts = Inl x \<Longrightarrow> x = ValueError \<or> x = TypeError"
  by (auto simp: time_window_def dt_sub_def Let_def split: if_splits sum.splits
        dest: py_max_Inl py_min_Inl)

lemma build_graph_Inl: "build_graph ext rs = Inl x \<Longrightarrow> x = ValueError \<or> x = TypeError"
  by (auto simp: build_graph_def Let_def split: sum.splits dest: time_window_Inl
        simp: observation_span_def)

lemma records_in_window_Inl:
  "records_in_window ext rs a b = Inl x \<Longrightarrow> x = ValueError \<or> x = TypeError"
  by (induction rs arbitrary: x)
     (auto simp: parse_iso_z_def dt_le_def split: option.splits sum.splits if_splits)

lemma records_in_window_subset:
  "records_in_window ext rs a b = Inr sel \<Longrightarrow> set sel \<subseteq> set rs"
proof (induction rs arbitrary: sel)
  case Nil
  then show ?case by simp
next
  case (Cons r rs)
  from Cons.prems obtain out where out: "records_in_window ext rs a b = Inr out"
    and sel: "sel = r # out \<or> sel = out"
    by (auto split: sum.splits if_splits)
  from Cons.IH[OF out] sel show ?case by auto
qed

lemma analyze_window_absent_source:
  assumes "source \<notin> services rs"
  shows "(\<forall>r. analyze_window ext rs source sink attr a b = Inr r \<longrightarrow> r = sentinel a b)
       \<and> (\<forall>x. analyze_window ext rs source sink attr a b = Inl x
              \<longrightarrow> x = ValueError \<or> x = TypeError)"
proof (cases "records_in_window ext rs a b")
  case (Inl x)
  with records_in_window_Inl[OF Inl] show ?thesis
    by (simp add: analyze_window_def)
next
  case sel: (Inr sel)
  show ?thesis
  proof (cases "sel = []")
    case True
    with sel show ?thesis by (simp add: analyze_window_def)
  next
    case ne: False
    show ?thesis
    proof (cases "build_graph ext sel")
      case (Inl x)
      with build_graph_Inl[OF Inl] sel ne show ?thesis
        by (simp add: analyze_window_def)
    next
      case (Inr G)
      from records_in_window_subset[OF sel] have "services sel \<subseteq> services rs"
        by (auto simp: services_def)
      with assms build_graph_nodes[OF Inr] have "\<not> has_node G source"
        by (auto simp: services_def)
      with sel ne Inr show ?thesis
        by (simp add: analyze_window_def)
    qed
  qed
qed

lemma next_window_Inl: "next_window w s g = Inl x \<Longrightarrow> x = TypeError \<or> x = OverflowError"
  by (auto simp: next_window_def loop_head_def dt_le_def dt_add_def timedelta_def
        split: window_gen.splits sum.splits if_splits)

lemma for_windows_invariant:
  assumes "for_windows body w s g acc = Some y"
    and "\<And>a b x. body a b = Inl x \<Longrightarrow> E x" and "\<And>a b r. body a b = Inr r \<Longrightarrow> Q r"
    and "E TypeError" and "E OverflowError" and "list_all Q acc"
  shows "case y of Inl x \<Rightarrow> E x | Inr rs \<Rightarrow> list_all Q rs"
proof -
  have "(\<forall>a b x. body a b = Inl x \<longrightarrow> E x) \<longrightarrow> (\<forall>a b r. body a b = Inr r \<longrightarrow> Q r)
          \<longrightarrow> list_all Q acc \<longrightarrow> (case y of Inl x \<Rightarrow> E x | Inr rs \<Rightarrow> list_all Q rs)"
  proof (rule for_windows.raw_induct[where P = "\<lambda>body w s g acc y.
            (\<forall>a b x. body a b = Inl x \<longrightarrow> E x) \<longrightarrow> (\<forall>a b r. body a b = Inr r \<longrightarrow> Q r)
            \<longrightarrow> list_all Q acc \<longrightarrow> (case y of Inl x \<Rightarrow> E x | Inr rs \<Rightarrow> list_all Q rs)",
           OF _ assms(1)], goal_cases)
    case (1 loop body w s g acc y)
    show ?case
    proof (intro impI)
      assume bE: "\<forall>a b x. body a b = Inl x \<longrightarrow> E x" and bQ: "\<forall>a b r. body a b = Inr r \<longrightarrow> Q r"
        and acc: "list_all Q acc"
      show "case y of Inl x \<Rightarrow> E x | Inr rs \<Rightarrow> list_all Q rs"
      proof (cases "next_window w s g")
        case (Inl x)
        from next_window_Inl[OF Inl] assms(4,5) have "E x" by blast
        with 1(2) Inl show ?thesis by auto
      next
        case (Inr nxt)
        show ?thesis
        proof (cases nxt)
          case None
          with 1(2) Inr acc show ?thesis by auto
        next
          case (Some p)
          obtain win g' where p: "p = (win, g')" by (cases p)
          show ?thesis
          proof (cases "body (fst win) (snd win)")
            case (Inl x)
            with bE have "E x" by blast
            with 1(2) Inr Some p Inl show ?thesis by auto
          next
            case r: (Inr r)
            with bQ have "Q r" by blast
            with acc have acc': "list_all Q (acc @ [r])" by simp
            from 1(2) Inr Some p r have "loop body w s g' (acc @ [r]) = Some y" by simp
            from 1(1)[OF this] bE bQ acc' show ?thesis by blast
          qed
        qed
      qed
    qed
  qed
  with assms(2,3,6) show ?thesis by blast
qed

lemma parse_all_error: "parse_all ext rs = Inl x \<Longrightarrow> x = ValueError"
  by (cases "all_parse ext rs") (simp_all add: parse_all_Inr parse_all_Inl)

lemma sliding_windows_Inl: "sliding_windows ext rs = Inl x \<Longrightarrow> x = ValueError \<or> x = TypeError"
  by (auto simp: sliding_windows_def split: if_splits sum.splits
        dest: parse_all_error py_min_Inl py_max_Inl)

definition zero_result :: "window_result \<Rightarrow> bool" where
  \<comment> \<open>the fields of the sentinel\<close>
  "zero_result r \<longleftrightarrow> flow r = 0 \<and> min_cut r = [] \<and> cut_value r = None"

definition timestamp_error :: "error \<Rightarrow> bool" where
  "timestamp_error x \<longleftrightarrow> x = ValueError \<or> x = TypeError \<or> x = OverflowError"

lemma analyze_absent_source:
  assumes "source \<notin> services rs"
    and "analyze_time_windows ext rs source sink w s attr = Some y"
  shows "case y of Inl x \<Rightarrow> timestamp_error x | Inr results \<Rightarrow> list_all zero_result results"
proof (cases "sliding_windows ext rs")
  case (Inl x)
  with sliding_windows_Inl[OF Inl] assms(2) show ?thesis
    by (auto simp: analyze_time_windows_def timestamp_error_def)
next
  case (Inr g)
  let ?body = "analyze_window ext rs source sink attr"
  from Inr assms(2) have run: "for_windows ?body w s g [] = Some y"
    by (simp add: analyze_time_windows_def)
  note body = analyze_window_absent_source[OF assms(1), of ext sink attr]
  have E: "timestamp_error x" if "?body a b = Inl x" for a b x
    using body[of a b] that by (auto simp: timestamp_error_def)
  have Q: "zero_result r" if "?body a b = Inr r" for a b r
    using body[of a b] that by (simp add: zero_result_def sentinel_def)
  show ?thesis
    by (rule for_windows_invariant[OF run E Q]) (simp_all add: timestamp_error_def)
qed

lemma aggregate_zero_results:
  assumes "list_all zero_result results"
  shows "aggregate_bottlenecks results k = []"
proof -
  have "fold (\<lambda>w counter. fold bump (min_cut w) counter) results c = c"
    for c :: "((string \<times> string) \<times> nat) list"
    using assms
  proof (induction results)
    case Nil
    show ?case by simp
  next
    case (Cons r results)
    from Cons.prems have "min_cut r = []"
      by (simp add: zero_result_def)
    with Cons show ?case by simp
  qed
  then show ?thesis
    by (simp add: aggregate_bottlenecks_def sorted_reverse_def slice_to_def)
qed

definition zero_window :: "out_window \<Rightarrow> bool" where
  "zero_window w \<longleftrightarrow> w_flow w = 0 \<and> w_cut_value w = 0 \<and> w_min_cut w = []"

lemma main_absent_source:
  assumes "source \<notin> services rs"
    and "run_bottleneck_analysis_main ext rs source sink w s attr = Some y"
  shows "case y of Inl x \<Rightarrow> timestamp_error x
         | Inr out \<Rightarrow> o_aggregated_bottlenecks out = [] \<and> list_all zero_window (o_windows out)"
proof -
  from assms(2) obtain y' where a: "analyze_time_windows ext rs source sink w s attr = Some y'"
    by (auto simp: run_bottleneck_analysis_main_def split: option.splits)
  note inv = analyze_absent_source[OF assms(1) a]
  show ?thesis
  proof (cases y')
    case (Inl x)
    with a assms(2) inv show ?thesis
      by (auto simp: run_bottleneck_analysis_main_def)
  next
    case (Inr results)
    with inv have z: "list_all zero_result results" by simp
    have "zero_window \<lparr>w_start = start r, w_end = end_dt r, w_flow = flow r,
             w_cut_value = (case cut_value r of None \<Rightarrow> 0 | Some c \<Rightarrow> c),
             w_min_cut = min_cut r\<rparr>" if "zero_result r" for r
      using that by (simp add: zero_result_def zero_window_def)
    with z have "list_all zero_window
        (map (\<lambda>w. \<lparr>w_start = start w, w_end = end_dt w, w_flow = flow w,
                     w_cut_value = (case cut_value w of None \<Rightarrow> 0 | Some c \<Rightarrow> c),
                     w_min_cut = min_cut w\<rparr>) results)"
      by (simp add: list_all_iff)
    with a Inr assms(2) aggregate_zero_results[OF z, of 20] show ?thesis
      by (auto simp: run_bottleneck_analysis_main_def Let_def)
  qed
qed

text \<open>
  C8, amended. When the requested source is in no record of the log, the batch run raises no
  error about the missing node: if the run raises, it is over the timestamps
  (\<^verbatim>\<open>ValueError\<close>, \<^verbatim>\<open>TypeError\<close> or \<^verbatim>\<open>OverflowError\<close>); whenever it
  completes, every window that it writes has flow 0, cut value 0 and no cut edge, there is no
  aggregated bottleneck, and every result of the sliding-window analysis has the fields of
  the sentinel.
  It does complete, with one sentinel for each window of the log, when every timestamp
  parses, the dates are all naive or all aware, the step is at least one second and no
  window leaves the range of dates.
\<close>

theorem absent_source_degrades:
  assumes "source \<notin> services records"
  shows "(\<forall>x. run_bottleneck_analysis_main ext records source sink window_seconds step_seconds
                capacity_attr = Some (Inl x) \<longrightarrow> timestamp_error x)
       \<and> (\<forall>out. run_bottleneck_analysis_main ext records source sink window_seconds step_seconds
                capacity_attr = Some (Inr out)
              \<longrightarrow> o_aggregated_bottlenecks out = [] \<and> list_all zero_window (o_windows out))
       \<and> (\<forall>results. analyze_time_windows ext records source sink window_seconds step_seconds
                capacity_attr = Some (Inr results) \<longrightarrow> list_all zero_result results)
       \<and> (all_parse ext records \<and> uniform (parsed ext records) \<and> 0 < step_seconds
            \<and> windows_fit ext records window_seconds step_seconds
          \<longrightarrow> analyze_time_windows ext records source sink window_seconds step_seconds
                capacity_attr
                = Some (Inr (map (\<lambda>win. sentinel (fst win) (snd win))
                               (windows_of ext records window_seconds step_seconds)))
            \<and> run_bottleneck_analysis_main ext records source sink window_seconds step_seconds
                capacity_attr
                = Some (Inr \<lparr>o_source = source, o_sink = sink, o_window = window_seconds,
                      o_step = step_seconds, o_capacity_attr = capacity_attr,
                      o_windows = map (\<lambda>win. \<lparr>w_start = fst win, w_end = snd win, w_flow = 0,
                                               w_cut_value = 0, w_min_cut = []\<rparr>)
                                    (windows_of ext records window_seconds step_seconds),
                      o_aggregated_bottlenecks = []\<rparr>))"
proof (intro conjI allI impI)
  fix x
  assume "run_bottleneck_analysis_main ext records source sink window_seconds step_seconds
            capacity_attr = Some (Inl x)"
  from main_absent_source[OF assms this] show "timestamp_error x" by simp
next
  fix out
  assume "run_bottleneck_analysis_main ext records source sink window_seconds step_seconds
            capacity_attr = Some (Inr out)"
  from main_absent_source[OF assms this]
  show "o_aggregated_bottlenecks out = []" and "list_all zero_window (o_windows out)"
    by simp_all
next
  fix results
  assume "analyze_time_windows ext records source sink window_seconds step_seconds
            capacity_attr = Some (Inr results)"
  from analyze_absent_source[OF assms this] show "list_all zero_result results" by simp
next
  assume h: "all_parse ext records \<and> uniform (parsed ext records) \<and> 0 < step_seconds
             \<and> windows_fit ext records window_seconds step_seconds"
  then have ap: "all_parse ext records" and un: "uniform (parsed ext records)"
    and pos: "0 < step_seconds"
    and fit: "windows_fit ext records window_seconds step_seconds" by blast+
  let ?wins = "windows_of ext records window_seconds step_seconds"
  let ?body = "analyze_window ext records source sink capacity_attr"
  have "?body (fst win) (snd win) = Inr (sentinel (fst win) (snd win))" if "win \<in> set ?wins" for win
  proof -
    from windows_of_aware[OF that]
    have "\<forall>t \<in> set (parsed ext records). aware t = aware (fst win)"
      and "aware (snd win) = aware (fst win)" by blast+
    from analyze_window_absent[OF ap this] assms show ?thesis by blast
  qed
  then have "run_bodies ?body ?wins [] = Inr ([] @ map (\<lambda>win. sentinel (fst win) (snd win)) ?wins)"
    by (intro run_bodies_map) blast
  then show a: "analyze_time_windows ext records source sink window_seconds step_seconds
      capacity_attr = Some (Inr (map (\<lambda>win. sentinel (fst win) (snd win)) ?wins))"
    by (simp add: analyze_time_windows_run[OF ap un pos fit])
  then show "run_bottleneck_analysis_main ext records source sink window_seconds step_seconds
                capacity_attr
                = Some (Inr \<lparr>o_source = source, o_sink = sink, o_window = window_seconds,
                      o_step = step_seconds, o_capacity_attr = capacity_attr,
                      o_windows = map (\<lambda>win. \<lparr>w_start = fst win, w_end = snd win, w_flow = 0,
                                               w_cut_value = 0, w_min_cut = []\<rparr>)
                                    ?wins,
                      o_aggregated_bottlenecks = []\<rparr>)"
    by (simp add: run_bottleneck_analysis_main_def aggregate_sentinels comp_def)
       (simp add: sentinel_def)
qed


definition absent_output :: out_obj where
  "absent_output =
     \<lparr>o_source = ''Z'', o_sink = ''C'', o_window = 60, o_step = 30, o_capacity_attr = ''capacity'',
      o_windows =
        map (\<lambda>win. \<lparr>w_start = fst win, w_end = snd win, w_flow = 0, w_cut_value = 0,
                     w_min_cut = []\<rparr>)
          [(Aware 1704067200000000 0, Aware 1704067260000000 0),
           (Aware 1704067230000000 0, Aware 1704067290000000 0),
           (Aware 1704067260000000 0, Aware 1704067320000000 0),
           (Aware 1704067290000000 0, Aware 1704067350000000 0),
           (Aware 1704067320000000 0, Aware 1704067380000000 0)],
      o_aggregated_bottlenecks = []\<rparr>"

lemma services_window_log: "services window_log = {''A'', ''B'', ''C''}"
  by (auto simp: services_def window_log_def call_def)

lemma absent_run:
  "run_bottleneck_analysis_main sample_ext window_log ''Z'' ''C'' 60 30 ''capacity''
     = Some (Inr absent_output)"
proof -
  have body: "analyze_window sample_ext window_log ''Z'' ''C'' ''capacity'' (fst win) (snd win)
                = Inr (sentinel (fst win) (snd win))"
    if "win \<in> set (windows_of sample_ext window_log 60 30)" for win
  proof -
    from windows_of_aware[OF that]
    have "\<forall>t \<in> set (parsed sample_ext window_log). aware t = aware (fst win)"
      and "aware (snd win) = aware (fst win)" by blast+
    from analyze_window_absent[OF all_parse_window_log this] show ?thesis
      by (simp add: services_window_log)
  qed
  then have "run_bodies (analyze_window sample_ext window_log ''Z'' ''C'' ''capacity'')
               (windows_of sample_ext window_log 60 30) []
             = Inr ([] @ map (\<lambda>win. sentinel (fst win) (snd win))
                           (windows_of sample_ext window_log 60 30))"
    by (intro run_bodies_map) blast
  then have "analyze_time_windows sample_ext window_log ''Z'' ''C'' 60 30 ''capacity''
      = Some (Inr (map (\<lambda>win. sentinel (fst win) (snd win))
                      (windows_of sample_ext window_log 60 30)))"
    by (simp add: analyze_time_windows_run[OF all_parse_window_log uniform_window_log _
          windows_fit_window_log])
  then show ?thesis
    by (simp add: run_bottleneck_analysis_main_def aggregate_sentinels comp_def)
       (simp add: sentinel_def absent_output_def windows_of_window_log)
qed

text \<open>
  C8, as stated, fails: the batch run for the absent source Z returns its output document
  and raises nothing.
\<close>

theorem absent_source_counterexample:
  "''Z'' \<notin> services window_log
   \<and> run_bottleneck_analysis_main sample_ext window_log ''Z'' ''C'' 60 30 ''capacity''
       = Some (Inr absent_output)"
  by (simp add: absent_run services_window_log)

text \<open>
  The window log with the absent source Z, whose run completes, and the sample log with the
  absent source Z, whose run raises \<^verbatim>\<open>ValueError\<close> on its third timestamp.
\<close>

theorem absent_source_degrades_witness:
  "''Z'' \<notin> services window_log \<and> ''Z'' \<notin> services sample_log
   \<and> all_parse sample_ext window_log \<and> uniform (parsed sample_ext window_log) \<and> (0::int) < 30
   \<and> windows_fit sample_ext window_log 60 30
   \<and> run_bottleneck_analysis_main sample_ext window_log ''Z'' ''C'' 60 30 ''capacity''
       = Some (Inr absent_output)
   \<and> o_aggregated_bottlenecks absent_output = [] \<and> list_all zero_window (o_windows absent_output)
   \<and> analyze_time_windows sample_ext window_log ''Z'' ''C'' 60 30 ''capacity''
       = Some (Inr (map (\<lambda>win. sentinel (fst win) (snd win))
                       (windows_of sample_ext window_log 60 30)))
   \<and> list_all zero_result (map (\<lambda>win. sentinel (fst win) (snd win))
                       (windows_of sample_ext window_log 60 30))
   \<and> run_bottleneck_analysis_main sample_ext sample_log ''Z'' ''C'' 60 30 ''capacity''
       = Some (Inl ValueError)
   \<and> timestamp_error ValueError"
proof -
  have pos: "(0::int) < 30" by simp
  have z: "''Z'' \<notin> services window_log" by (simp add: services_window_log)
  have z': "''Z'' \<notin> services sample_log"
    by (simp add: services_def sample_log_def call_def)
  have raises: "run_bottleneck_analysis_main sample_ext sample_log ''Z'' ''C'' 60 30 ''capacity''
       = Some (Inl ValueError)"
    by (simp add: run_bottleneck_analysis_main_def analyze_time_windows_def sliding_windows_def
          parse_all_def sample_log_def call_def sample_ext_def sample_iso_def replace_Z_def
          parse_iso_z_def)
  note here = absent_source_degrades[OF z, of sample_ext "''C''" 60 30 "''capacity''"]
  note there = absent_source_degrades[OF z', of sample_ext "''C''" 60 30 "''capacity''"]
  from there raises have e: "timestamp_error ValueError" by blast
  from here all_parse_window_log uniform_window_log pos windows_fit_window_log
  have a: "analyze_time_windows sample_ext window_log ''Z'' ''C'' 60 30 ''capacity''
       = Some (Inr (map (\<lambda>win. sentinel (fst win) (snd win))
                       (windows_of sample_ext window_log 60 30)))" by blast
  with here have zr: "list_all zero_result (map (\<lambda>win. sentinel (fst win) (snd win))
                       (windows_of sample_ext window_log 60 30))" by blast
  from here absent_run
  have zw: "o_aggregated_bottlenecks absent_output = []"
    "list_all zero_window (o_windows absent_output)" by blast+
  from z z' all_parse_window_log uniform_window_log pos windows_fit_window_log absent_run zw a zr
    raises e
  show ?thesis by blast
qed

section \<open>Live mode: publication of the results\<close>

text \<open>
  \<^verbatim>\<open>scripts/runtime_server.py\<close>, \<^verbatim>\<open>RuntimeAnalyzer.analyze_loop\<close>. The projection of
  lines 85 to 139: the strings that the code formats (titles, labels, colours) are kept as
  the values they are formatted from.
\<close>

record live_node =
  n_id :: string
  n_load :: real
  n_size :: real
  n_intensity :: "int option"

record live_edge =
  e_from :: string
  e_to :: string
  e_avg_latency :: real
  e_highlighted :: bool
  e_width :: real

record live_graph =
  g_nodes :: "live_node list"
  g_edges :: "live_edge list"

definition in_range :: "externals \<Rightarrow> datetime \<Rightarrow> datetime \<Rightarrow> LogRecord \<Rightarrow> bool" where
  "in_range ext s e r =
     (case parse_iso_z ext (timestamp r) of
        Inl x \<Rightarrow> False
      | Inr ts \<Rightarrow>
          (case dt_le s ts of
             Inl x \<Rightarrow> False
           | Inr lo \<Rightarrow> if lo then (case dt_le ts e of Inl x \<Rightarrow> False | Inr hi \<Rightarrow> hi) else False))"

definition project_node :: "real \<Rightarrow> real \<Rightarrow> string \<times> node_attrs \<Rightarrow> live_node" where
  "project_node min_load max_load na =
     (let ld = load (snd na);
          sz = (if max_load > min_load
                  then 10 + ((ld - min_load) / (max_load - min_load)) * 50 else 10);
          intensity = (if max_load > 0 \<and> max_load > min_load
                       then Some \<lfloor>255 * ((ld - min_load) / (max_load - min_load))\<rfloor> else None)
      in \<lparr>n_id = fst na, n_load = ld, n_size = sz, n_intensity = intensity\<rparr>)"

definition edges_view :: "('n, 'e) DiGraph \<Rightarrow> ((string \<times> string) \<times> 'e) list" where
  "edges_view G = concat (map (\<lambda>na. out_edges G (fst na)) (nodes G))"

definition project_graph :: "graph \<Rightarrow> (string \<times> string) list \<Rightarrow> live_graph" where
  "project_graph G highlighted =
     (let loads = map (\<lambda>na. load (snd na)) (nodes G);
          min_load = (if loads \<noteq> [] then Min (set loads) else 0);
          max_load = (if loads \<noteq> [] then Max (set loads) else 0)
      in \<lparr>g_nodes = map (project_node min_load max_load) (nodes G),
          g_edges = map (\<lambda>kv. \<lparr>e_from = fst (fst kv), e_to = snd (fst kv),
                                 e_avg_latency = avg_latency (snd kv),
                                 e_highlighted = (fst kv \<in> set highlighted),
                                 e_width = 1\<rparr>) (edges_view G)\<rparr>)"

definition live_view ::
  "externals \<Rightarrow> LogRecord list \<Rightarrow> window_result list \<Rightarrow> ((string \<times> string) \<times> nat) list
     \<Rightarrow> live_graph option" where
  "live_view ext records_copy windows top_edges =
     (if windows = [] then None
      else (let last_window = last windows;
                window_recs = filter (in_range ext (start last_window) (end_dt last_window))
                                records_copy
            in case build_graph ext window_recs of
                 Inl x \<Rightarrow> None
               | Inr G \<Rightarrow> Some (project_graph G (map fst (slice_to top_edges 5)))))"

text \<open>
  The shared fields of \<^verbatim>\<open>RuntimeAnalyzer\<close> and the place of the analysis thread in its
  cycle. Every block under \<^verbatim>\<open>with self.lock\<close> is one step; what a thread computes between
  two such blocks touches no shared field and is part of the step that follows. A reader
  takes the lock between two steps and sees the fields of the state reached.
\<close>

record config =
  c_source :: string
  c_sink :: string
  c_window :: int
  c_step :: int
  c_capacity :: string

datatype pc = Sleeping | Copied "LogRecord list"
  | Published "LogRecord list" "window_result list" "((string \<times> string) \<times> nat) list"

record runtime =
  records :: "LogRecord list"
  latest_windows :: "window_result list"
  latest_bottlenecks :: "((string \<times> string) \<times> nat) list"
  latest_graph :: "live_graph option"
  analyzer :: pc

definition init :: runtime where
  "init = \<lparr>records = [], latest_windows = [], latest_bottlenecks = [], latest_graph = None,
           analyzer = Sleeping\<rparr>"

definition cycle_result ::
  "externals \<Rightarrow> config \<Rightarrow> LogRecord list
     \<Rightarrow> (window_result list \<times> ((string \<times> string) \<times> nat) list) option" where
  "cycle_result ext c records_copy =
     (case analyze_time_windows ext records_copy (c_source c) (c_sink c) (c_window c) (c_step c)
             (c_capacity c) of
        None \<Rightarrow> None
      | Some (Inl x) \<Rightarrow> Some ([], [])
      | Some (Inr windows) \<Rightarrow> Some (windows, aggregate_bottlenecks windows 10))"

inductive step :: "externals \<Rightarrow> config \<Rightarrow> runtime \<Rightarrow> runtime \<Rightarrow> bool" for ext c where
  tail: "step ext c s (s\<lparr>records := records s @ [rec]\<rparr>)"
| copy: "analyzer s = Sleeping \<Longrightarrow> records s \<noteq> [] \<Longrightarrow>
         step ext c s (s\<lparr>analyzer := Copied (records s)\<rparr>)"
| publish: "analyzer s = Copied rc \<Longrightarrow> cycle_result ext c rc = Some (windows, top_edges) \<Longrightarrow>
            step ext c s (s\<lparr>latest_windows := windows, latest_bottlenecks := top_edges,
                              analyzer := Published rc windows top_edges\<rparr>)"
| publish_graph: "analyzer s = Published rc windows top_edges \<Longrightarrow>
            live_view ext rc windows top_edges = Some g \<Longrightarrow>
            step ext c s (s\<lparr>latest_graph := Some g, analyzer := Sleeping\<rparr>)"
| skip_graph: "analyzer s = Published rc windows top_edges \<Longrightarrow>
            live_view ext rc windows top_edges = None \<Longrightarrow>
            step ext c s (s\<lparr>analyzer := Sleeping\<rparr>)"

inductive reachable :: "externals \<Rightarrow> config \<Rightarrow> runtime \<Rightarrow> bool" for ext c where
  initial: "reachable ext c init"
| after: "reachable ext c s \<Longrightarrow> step ext c s s' \<Longrightarrow> reachable ext c s'"


lemma aggregate_nothing: "aggregate_bottlenecks [] k = []"
  by (simp add: aggregate_bottlenecks_def sorted_reverse_def slice_to_def)

lemma cycle_result_pair:
  "cycle_result ext c rc = Some (windows, top_edges) \<Longrightarrow>
     top_edges = aggregate_bottlenecks windows 10"
  by (auto simp: cycle_result_def aggregate_nothing split: option.splits sum.splits)

lemma reachable_pair:
  assumes "reachable ext c s"
  shows "latest_bottlenecks s = aggregate_bottlenecks (latest_windows s) 10
       \<and> (\<forall>rc windows top_edges. analyzer s = Published rc windows top_edges \<longrightarrow>
             latest_windows s = windows \<and> latest_bottlenecks s = top_edges
             \<and> cycle_result ext c rc = Some (windows, top_edges))"
  using assms
proof (induction rule: reachable.induct)
  case initial
  show ?case by (simp add: init_def aggregate_nothing)
next
  case (after s s')
  from after.hyps(2) after.IH show ?case
    by (cases rule: step.cases) (auto dest: cycle_result_pair)
qed

text \<open>
  C9, amended. The windows and the bottlenecks are replaced together, in one step, and are
  always those of one analysis; the graph is replaced in a later step of its own, which leaves
  the windows and the bottlenecks as they are, and no step replaces all three.
\<close>

theorem publication_in_two_sections:
  "(reachable ext c s \<longrightarrow>
      latest_bottlenecks s = aggregate_bottlenecks (latest_windows s) 10
    \<and> (\<forall>rc windows top_edges. analyzer s = Published rc windows top_edges \<longrightarrow>
          latest_windows s = windows \<and> latest_bottlenecks s = top_edges
          \<and> cycle_result ext c rc = Some (windows, top_edges)))
   \<and> (step ext c s s' \<longrightarrow>
        (latest_windows s' \<noteq> latest_windows s \<or> latest_bottlenecks s' \<noteq> latest_bottlenecks s)
        \<longrightarrow> latest_graph s' = latest_graph s
            \<and> (\<exists>rc. analyzer s = Copied rc
                  \<and> cycle_result ext c rc = Some (latest_windows s', latest_bottlenecks s')))
   \<and> (step ext c s s' \<longrightarrow> latest_graph s' \<noteq> latest_graph s
        \<longrightarrow> latest_windows s' = latest_windows s \<and> latest_bottlenecks s' = latest_bottlenecks s
            \<and> (\<exists>rc windows top_edges. analyzer s = Published rc windows top_edges
                  \<and> latest_graph s' = live_view ext rc windows top_edges))"
proof (intro conjI impI)
  assume "reachable ext c s"
  from reachable_pair[OF this]
  show "latest_bottlenecks s = aggregate_bottlenecks (latest_windows s) 10"
    and "\<forall>rc windows top_edges. analyzer s = Published rc windows top_edges \<longrightarrow>
          latest_windows s = windows \<and> latest_bottlenecks s = top_edges
          \<and> cycle_result ext c rc = Some (windows, top_edges)" by blast+
next
  assume st: "step ext c s s'"
    and ch: "latest_windows s' \<noteq> latest_windows s \<or> latest_bottlenecks s' \<noteq> latest_bottlenecks s"
  from st ch show "latest_graph s' = latest_graph s"
    by (cases rule: step.cases) auto
  from st ch show "\<exists>rc. analyzer s = Copied rc
                  \<and> cycle_result ext c rc = Some (latest_windows s', latest_bottlenecks s')"
    by (cases rule: step.cases) auto
next
  assume st: "step ext c s s'" and ch: "latest_graph s' \<noteq> latest_graph s"
  from st ch show "latest_windows s' = latest_windows s"
    by (cases rule: step.cases) auto
  from st ch show "latest_bottlenecks s' = latest_bottlenecks s"
    by (cases rule: step.cases) auto
  from st ch show "\<exists>rc windows top_edges. analyzer s = Published rc windows top_edges
                  \<and> latest_graph s' = live_view ext rc windows top_edges"
    by (cases rule: step.cases) auto
qed


definition sample_config :: config where
  "sample_config = \<lparr>c_source = ''A'', c_sink = ''C'', c_window = 60, c_step = 30,
                      c_capacity = ''capacity''\<rparr>"

definition sample_view :: live_graph where
  "sample_view =
     \<lparr>g_nodes = [\<lparr>n_id = ''A'', n_load = 1, n_size = 10, n_intensity = None\<rparr>,
                 \<lparr>n_id = ''B'', n_load = 1, n_size = 10, n_intensity = None\<rparr>],
      g_edges = [\<lparr>e_from = ''A'', e_to = ''B'', e_avg_latency = 10, e_highlighted = True,
                  e_width = 1\<rparr>]\<rparr>"

definition torn_state :: runtime where
  "torn_state =
     \<lparr>records = window_log, latest_windows = window_results,
      latest_bottlenecks = [((''A'', ''B''), 1)], latest_graph = None,
      analyzer = Published window_log window_results [((''A'', ''B''), 1)]\<rparr>"

definition full_state :: runtime where
  "full_state =
     \<lparr>records = window_log, latest_windows = window_results,
      latest_bottlenecks = [((''A'', ''B''), 1)], latest_graph = Some sample_view,
      analyzer = Sleeping\<rparr>"

lemma reachable_records: "reachable ext c (init\<lparr>records := rs\<rparr>)"
proof (induction rs rule: rev_induct)
  case Nil
  have "init\<lparr>records := []\<rparr> = init" by (simp add: init_def)
  then show ?case by (simp add: reachable.initial)
next
  case (snoc r rs)
  from step.tail[of ext c "init\<lparr>records := rs\<rparr>" r]
  have "step ext c (init\<lparr>records := rs\<rparr>) (init\<lparr>records := rs @ [r]\<rparr>)" by simp
  with snoc show ?case by (rule reachable.after)
qed

lemma sample_cycle:
  "cycle_result sample_ext sample_config window_log = Some (window_results, [((''A'', ''B''), 1)])"
  by (simp add: cycle_result_def sample_config_def analyze_window_log)
     (simp add: aggregate_bottlenecks_def window_results_def sentinel_def bump_def
        sorted_reverse_def slice_to_def)

lemma sample_live_view:
  "live_view sample_ext window_log window_results [((''A'', ''B''), 1)] = Some sample_view"
  by (simp add: live_view_def window_results_def sentinel_def in_range_def eval_defs
        project_graph_def project_node_def edges_view_def slice_to_def sample_view_def)

definition copied_state :: runtime where
  "copied_state =
     \<lparr>records = window_log, latest_windows = [], latest_bottlenecks = [], latest_graph = None,
      analyzer = Copied window_log\<rparr>"

lemma reachable_copied: "reachable sample_ext sample_config copied_state"
proof -
  let ?logged = "init\<lparr>records := window_log\<rparr>"
  have r0: "reachable sample_ext sample_config ?logged" by (rule reachable_records)
  have "step sample_ext sample_config ?logged (?logged\<lparr>analyzer := Copied (records ?logged)\<rparr>)"
    by (rule step.copy) (simp_all add: init_def window_log_def)
  with r0 have "reachable sample_ext sample_config (?logged\<lparr>analyzer := Copied (records ?logged)\<rparr>)"
    by (rule reachable.after)
  then show ?thesis by (simp add: copied_state_def init_def)
qed

lemma step_copied_torn: "step sample_ext sample_config copied_state torn_state"
proof -
  have "step sample_ext sample_config copied_state
          (copied_state\<lparr>latest_windows := window_results,
              latest_bottlenecks := [((''A'', ''B''), 1)],
              analyzer := Published window_log window_results [((''A'', ''B''), 1)]\<rparr>)"
    by (rule step.publish[OF _ sample_cycle]) (simp add: copied_state_def)
  then show ?thesis by (simp add: copied_state_def torn_state_def)
qed

lemma reachable_torn: "reachable sample_ext sample_config torn_state"
  using reachable_copied step_copied_torn by (rule reachable.after)

lemma step_torn_full: "step sample_ext sample_config torn_state full_state"
proof -
  have "step sample_ext sample_config torn_state
          (torn_state\<lparr>latest_graph := Some sample_view, analyzer := Sleeping\<rparr>)"
    by (rule step.publish_graph[OF _ sample_live_view]) (simp add: torn_state_def)
  then show ?thesis by (simp add: torn_state_def full_state_def)
qed

text \<open>
  C9, as stated, fails: after the first cycle has published its windows and bottlenecks and
  before it publishes its graph, a reader finds the new windows and bottlenecks with the
  graph of before (none).
\<close>

theorem torn_publication_counterexample:
  "reachable sample_ext sample_config torn_state
   \<and> latest_windows torn_state = window_results \<and> window_results \<noteq> []
   \<and> latest_bottlenecks torn_state = [((''A'', ''B''), 1)]
   \<and> latest_graph torn_state = None
   \<and> step sample_ext sample_config torn_state full_state
   \<and> latest_windows full_state = window_results
   \<and> latest_bottlenecks full_state = [((''A'', ''B''), 1)]
   \<and> latest_graph full_state = Some sample_view"
  by (simp add: reachable_torn step_torn_full)
     (simp add: torn_state_def full_state_def window_results_def)

text \<open>The first cycle on the window log: its two publishing steps.\<close>

theorem publication_in_two_sections_witness:
  "reachable sample_ext sample_config torn_state
   \<and> latest_bottlenecks torn_state = aggregate_bottlenecks (latest_windows torn_state) 10
   \<and> step sample_ext sample_config copied_state torn_state
   \<and> latest_windows torn_state \<noteq> latest_windows copied_state
   \<and> latest_graph torn_state = latest_graph copied_state
   \<and> step sample_ext sample_config torn_state full_state
   \<and> latest_graph full_state \<noteq> latest_graph torn_state
   \<and> latest_windows full_state = latest_windows torn_state"
proof -
  have g: "latest_graph full_state \<noteq> latest_graph torn_state"
    by (simp add: torn_state_def full_state_def)
  have w: "latest_windows torn_state \<noteq> latest_windows copied_state"
    by (simp add: torn_state_def copied_state_def window_results_def)
  note a = publication_in_two_sections[of sample_ext sample_config torn_state full_state]
  note b = publication_in_two_sections[of sample_ext sample_config copied_state torn_state]
  from a reachable_torn
  have 1: "latest_bottlenecks torn_state = aggregate_bottlenecks (latest_windows torn_state) 10"
    by blast
  from b step_copied_torn w have 2: "latest_graph torn_state = latest_graph copied_state"
    by blast
  from a step_torn_full g have 3: "latest_windows full_state = latest_windows torn_state"
    by blast
  from reachable_torn 1 step_copied_torn w 2 step_torn_full g 3 show ?thesis
    by blast
qed

end
